theory Spec2Isabelle
  imports Main "HOL-Library.Word" "HOL-Library.Sublist"
begin

section \<open>Characters and the regular-expression fragment\<close>

text \<open>
  A JavaScript string is modelled as a \<open>string\<close>: a list of code units, here restricted
  to the code units 0 to 255. The regular expressions of \<open>rewriteMdComment\<close> carry the
  flag \<open>g\<close> only, so matching compares code units one by one.
\<close>

abbreviation bsl :: char where "bsl \<equiv> CHR 0x5C"
abbreviation dquote :: char where "dquote \<equiv> CHR 0x22"
abbreviation squote :: char where "squote \<equiv> CHR 0x27"
abbreviation newline :: char where "newline \<equiv> CHR 0x0A"

definition isSpace :: "char \<Rightarrow> bool" where
  \<comment> \<open>the class \<open>\s\<close>: TAB, LF, VT, FF, CR, SPACE and NBSP (the code points of
      ECMAScript's WhiteSpace and LineTerminator that lie below 256)\<close>
  "isSpace c \<longleftrightarrow>
     c = CHR 0x09 \<or> c = CHR 0x0A \<or> c = CHR 0x0B \<or> c = CHR 0x0C \<or> c = CHR 0x0D \<or>
     c = CHR 0x20 \<or> c = CHR 0xA0"

definition isSyntaxChar :: "char \<Rightarrow> bool" where
  \<comment> \<open>ECMAScript's SyntaxCharacter: \<open>^ $ \ . * + ? ( ) [ ] { } |\<close>\<close>
  "isSyntaxChar c \<longleftrightarrow>
     c = CHR ''^'' \<or> c = CHR ''$'' \<or> c = bsl \<or> c = CHR ''.'' \<or> c = CHR ''*'' \<or>
     c = CHR ''+'' \<or> c = CHR ''?'' \<or> c = CHR ''('' \<or> c = CHR '')'' \<or> c = CHR ''['' \<or>
     c = CHR '']'' \<or> c = CHR ''{'' \<or> c = CHR ''}'' \<or> c = CHR ''|''"

datatype catom = Chr char | Dot | Space | NonSpace

fun cmatch :: "catom \<Rightarrow> char \<Rightarrow> bool" where
  "cmatch (Chr a) c = (c = a)"
| "cmatch Dot c = (c \<noteq> CHR 0x0A \<and> c \<noteq> CHR 0x0D)"
| "cmatch Space c = isSpace c"
| "cmatch NonSpace c = (\<not> isSpace c)"

text \<open>A character class is the list of its members; a single atom is a one-member class.\<close>

type_synonym cls = "catom list"

definition clsMatch :: "cls \<Rightarrow> char \<Rightarrow> bool" where
  "clsMatch cs c = list_ex (\<lambda>a. cmatch a c) cs"

datatype quant = One | Opt bool | Star bool | Plus bool
  \<comment> \<open>the flag is \<open>True\<close> for a greedy quantifier, \<open>False\<close> for a lazy one (\<open>*?\<close>)\<close>

datatype item = Item cls quant

type_synonym regex = "item list"

text \<open>
  The backtracking matcher, anchored at the head of the text: the length of the match the
  engine finds first, or \<open>None\<close>. A greedy quantifier tries one more character before
  it tries the rest of the pattern, a lazy one the other way round.
\<close>

function rmatch :: "regex \<Rightarrow> string \<Rightarrow> nat option" where
  "rmatch [] xs = Some 0"
| "rmatch (Item cs One # r) xs =
     (case xs of [] \<Rightarrow> None
      | c # t \<Rightarrow> if clsMatch cs c then map_option Suc (rmatch r t) else None)"
| "rmatch (Item cs (Opt True) # r) xs =
     (case (case xs of [] \<Rightarrow> None
            | c # t \<Rightarrow> if clsMatch cs c then map_option Suc (rmatch r t) else None) of
        Some n \<Rightarrow> Some n
      | None \<Rightarrow> rmatch r xs)"
| "rmatch (Item cs (Opt False) # r) xs =
     (case rmatch r xs of
        Some n \<Rightarrow> Some n
      | None \<Rightarrow> (case xs of [] \<Rightarrow> None
                 | c # t \<Rightarrow> if clsMatch cs c then map_option Suc (rmatch r t) else None))"
| "rmatch (Item cs (Star True) # r) xs =
     (case (case xs of [] \<Rightarrow> None
            | c # t \<Rightarrow> if clsMatch cs c
                      then map_option Suc (rmatch (Item cs (Star True) # r) t) else None) of
        Some n \<Rightarrow> Some n
      | None \<Rightarrow> rmatch r xs)"
| "rmatch (Item cs (Star False) # r) xs =
     (case rmatch r xs of
        Some n \<Rightarrow> Some n
      | None \<Rightarrow> (case xs of [] \<Rightarrow> None
                 | c # t \<Rightarrow> if clsMatch cs c
                           then map_option Suc (rmatch (Item cs (Star False) # r) t) else None))"
| "rmatch (Item cs (Plus g) # r) xs =
     (case xs of [] \<Rightarrow> None
      | c # t \<Rightarrow> if clsMatch cs c
                then map_option Suc (rmatch (Item cs (Star g) # r) t) else None)"
  by pat_completeness auto
termination
  by (relation "measure (\<lambda>(r, xs). length r + length xs)") auto

lemmas rmatch_unfold = rmatch.simps

declare rmatch.simps [simp del]

lemma rmatch_Nil [simp]: "rmatch [] xs = Some 0"
  by (simp add: rmatch_unfold)

lemma rmatch_One [simp]:
  "rmatch (Item cs One # r) [] = None"
  "rmatch (Item cs One # r) (c # t) =
     (if clsMatch cs c then map_option Suc (rmatch r t) else None)"
  by (simp_all add: rmatch_unfold)

lemma rmatch_greedy [simp]:
  "rmatch (Item cs (Star True) # r) [] = rmatch r []"
  "rmatch (Item cs (Star True) # r) (c # t) =
     (if clsMatch cs c
      then (case rmatch (Item cs (Star True) # r) t of
              Some n \<Rightarrow> Some (Suc n)
            | None \<Rightarrow> rmatch r (c # t))
      else rmatch r (c # t))"
  by (simp_all add: rmatch_unfold split: option.splits)

lemma rmatch_lazy [simp]:
  "rmatch (Item cs (Star False) # r) [] = rmatch r []"
  "rmatch (Item cs (Star False) # r) (c # t) =
     (case rmatch r (c # t) of
        Some n \<Rightarrow> Some n
      | None \<Rightarrow> if clsMatch cs c
                then map_option Suc (rmatch (Item cs (Star False) # r) t) else None)"
  by (simp_all add: rmatch_unfold split: option.splits)

subsection \<open>Parsing a pattern source\<close>

text \<open>
  \<open>new RegExp(src, 'g')\<close> parses \<open>src\<close>. The parser covers the fragment the program
  writes: pattern characters, \<open>.\<close>, the escapes \<open>\s\<close>, \<open>\S\<close> and backslash before a
  syntax character, classes without ranges or negation, and the quantifiers \<open>*\<close>,
  \<open>+\<close>, \<open>?\<close> with their lazy forms. \<open>None\<close> stands for a pattern that is a
  SyntaxError or lies outside this fragment (groups, alternation, anchors, braces).
\<close>

fun classItem :: "string \<Rightarrow> (catom \<times> string) option" where
  "classItem [] = None"
| "classItem (c # r) =
     (if c = bsl then
        (case r of [] \<Rightarrow> None
         | d # r' \<Rightarrow>
             if d = CHR ''s'' then Some (Space, r')
             else if d = CHR ''S'' then Some (NonSpace, r')
             else if isSyntaxChar d \<or> d = CHR ''-'' then Some (Chr d, r')
             else None)
      else if c = CHR ''-'' then None
      else Some (Chr c, r))"

lemma classItem_length: "classItem xs = Some (a, r) \<Longrightarrow> length r < length xs"
  by (cases xs) (auto split: if_splits list.splits)

function parseClass :: "string \<Rightarrow> (cls \<times> string) option" where
  "parseClass xs =
     (case xs of [] \<Rightarrow> None
      | c # r \<Rightarrow>
          if c = CHR '']'' then Some ([], r)
          else (case classItem xs of
                  None \<Rightarrow> None
                | Some (a, r') \<Rightarrow> map_option (\<lambda>(cs, z). (a # cs, z)) (parseClass r')))"
  by pat_completeness auto
termination
proof (relation "measure length")
  show "wf (measure length)" by simp
next
  fix xs :: string and c r x2 a r'
  assume "xs = c # r" and "classItem xs = Some x2" and "(a, r') = x2"
  then have "length r' < length xs"
    using classItem_length[of xs a r'] by simp
  then show "(r', xs) \<in> measure length" by simp
qed

declare parseClass.simps [simp del]

fun parseAtom :: "string \<Rightarrow> (cls \<times> string) option" where
  "parseAtom [] = None"
| "parseAtom (c # r) =
     (if c = bsl then
        (case r of [] \<Rightarrow> None
         | d # r' \<Rightarrow>
             if d = CHR ''s'' then Some ([Space], r')
             else if d = CHR ''S'' then Some ([NonSpace], r')
             else if isSyntaxChar d then Some ([Chr d], r')
             else None)
      else if c = CHR ''['' then
        (case r of [] \<Rightarrow> None
         | d # r' \<Rightarrow> if d = CHR ''^'' then None else parseClass r)
      else if c = CHR ''.'' then Some ([Dot], r)
      else if isSyntaxChar c then None
      else Some ([Chr c], r))"

fun parseQuant :: "string \<Rightarrow> quant \<times> string" where
  "parseQuant [] = (One, [])"
| "parseQuant (c # r) =
     (if c = CHR ''*'' \<or> c = CHR ''+'' \<or> c = CHR ''?'' then
        (let (g, r') = (case r of [] \<Rightarrow> (True, r)
                        | d # z \<Rightarrow> if d = CHR ''?'' then (False, z) else (True, r))
         in (if c = CHR ''*'' then Star g else if c = CHR ''+'' then Plus g else Opt g, r'))
      else (One, c # r))"

lemma parseClass_length: "parseClass xs = Some (cs, r) \<Longrightarrow> length r < length xs"
proof (induction xs arbitrary: cs r rule: parseClass.induct)
  case (1 xs)
  show ?case
  proof (cases xs)
    case Nil
    with 1(2) show ?thesis by (simp add: parseClass.simps)
  next
    case (Cons c r0)
    show ?thesis
    proof (cases "c = CHR '']''")
      case True
      with 1(2) Cons show ?thesis by (simp add: parseClass.simps)
    next
      case False
      with 1(2) Cons obtain a r' cs' where
        ci: "classItem xs = Some (a, r')" and pc: "parseClass r' = Some (cs', r)"
        by (subst (asm) parseClass.simps) (auto split: option.splits)
      have "length r < length r'"
        using 1(1)[OF Cons False ci refl pc] .
      moreover have "length r' < length xs"
        using classItem_length[OF ci] .
      ultimately show ?thesis by simp
    qed
  qed
qed

lemma parseAtom_length:
  assumes pa: "parseAtom xs = Some (cs, r)"
  shows "length r < length xs"
proof (cases xs)
  case Nil
  with pa show ?thesis by simp
next
  case (Cons c r0)
  show ?thesis
  proof (cases "c = CHR ''[''")
    case True
    with pa Cons have "parseClass r0 = Some (cs, r)"
      by (auto split: list.splits if_splits)
    from parseClass_length[OF this] Cons show ?thesis by simp
  next
    case False
    with pa Cons show ?thesis
      by (auto split: list.splits if_splits)
  qed
qed

lemma parseQuant_length: "parseQuant xs = (q, r) \<Longrightarrow> length r \<le> length xs"
  by (cases xs) (auto split: if_splits list.splits simp: Let_def)

function parseRegex :: "string \<Rightarrow> regex option" where
  "parseRegex xs =
     (if xs = [] then Some []
      else case parseAtom xs of
             None \<Rightarrow> None
           | Some (cs, r) \<Rightarrow>
               (case parseQuant r of
                  (q, r') \<Rightarrow> map_option (\<lambda>is. Item cs q # is) (parseRegex r')))"
  by pat_completeness auto
termination
proof (relation "measure length")
  show "wf (measure length)" by simp
next
  fix xs :: string and x2 cs r q r'
  assume "parseAtom xs = Some x2" and "(cs, r) = x2" and "(q, r') = parseQuant r"
  then have "length r < length xs" and "length r' \<le> length r"
    using parseAtom_length[of xs cs r] parseQuant_length[of r q r'] by auto
  then show "(r', xs) \<in> measure length" by simp
qed

declare parseRegex.simps [simp del]

section \<open>Global matching and replacement\<close>

datatype error =
    ConfigError
  | ReservedKey string
  | UnmatchedMarkers string nat nat
  | SyntaxError
  | TypeError

text \<open>
  \<open>[...content.matchAll(re)]\<close> for a regular expression with the flag \<open>g\<close>: the matched
  texts from left to right. After a match of length \<open>n\<close> at the head of \<open>c # t\<close> the
  search goes on behind it, at \<open>drop (n - 1) t\<close>, and one code unit further after an empty
  match. \<open>str.match(re)\<close> with the flag \<open>g\<close> returns the same texts (and \<open>null\<close> when
  there is none).
\<close>

function matchAll :: "regex \<Rightarrow> string \<Rightarrow> string list" where
  "matchAll re xs =
     (case rmatch re xs of
        None \<Rightarrow> (case xs of [] \<Rightarrow> [] | c # t \<Rightarrow> matchAll re t)
      | Some n \<Rightarrow> take n xs # (case xs of [] \<Rightarrow> [] | c # t \<Rightarrow> matchAll re (drop (n - 1) t)))"
  by pat_completeness auto
termination
  by (relation "measure (\<lambda>(re, xs). length xs)") auto

declare matchAll.simps [simp del]

text \<open>
  \<open>content.replaceAll(re, f)\<close> (and \<open>replace\<close> with a \<open>g\<close> pattern): every match is
  replaced by what the callback returns for its text; an exception of the callback ends
  the call.
\<close>

function replaceAll :: "regex \<Rightarrow> (string \<Rightarrow> error + string) \<Rightarrow> string \<Rightarrow> error + string" where
  "replaceAll re f xs =
     (case rmatch re xs of
        None \<Rightarrow>
          (case xs of [] \<Rightarrow> Inr []
           | c # t \<Rightarrow> (case replaceAll re f t of Inl e \<Rightarrow> Inl e | Inr z \<Rightarrow> Inr (c # z)))
      | Some n \<Rightarrow>
          (case f (take n xs) of
             Inl e \<Rightarrow> Inl e
           | Inr s \<Rightarrow>
               (case xs of [] \<Rightarrow> Inr s
                | c # t \<Rightarrow>
                    (case replaceAll re f (drop (n - 1) t) of
                       Inl e \<Rightarrow> Inl e
                     | Inr z \<Rightarrow> Inr (s @ (if n = 0 then [c] else []) @ z)))))"
  by pat_completeness auto
termination
  by (relation "measure (\<lambda>(re, f, xs). length xs)") auto

declare replaceAll.simps [simp del]

section \<open>The helpers of \<open>rewriteMdComment\<close>\<close>

text \<open>
  \<open>escReg = (v) => v.replace(/[.*+?^${}()|[\]\\]/g, '\\$&')\<close>: the class of the pattern,
  and the replacement \<open>\$&\<close>, a backslash followed by the matched text.
\<close>

definition escRegClass :: regex where
  "escRegClass =
     [Item [Chr (CHR ''.''), Chr (CHR ''*''), Chr (CHR ''+''), Chr (CHR ''?''), Chr (CHR ''^''),
            Chr (CHR ''$''), Chr (CHR ''{''), Chr (CHR ''}''), Chr (CHR ''(''), Chr (CHR '')''),
            Chr (CHR ''|''), Chr (CHR ''[''), Chr (CHR '']''), Chr bsl] One]"

definition escReg :: "string \<Rightarrow> string" where
  "escReg v = (case replaceAll escRegClass (\<lambda>m. Inr (bsl # m)) v of Inl e \<Rightarrow> v | Inr s \<Rightarrow> s)"

text \<open>
  \<open>escapeHtml\<close>: five global replacements of one character by its entity, in the order
  of the source.
\<close>

definition replaceChar :: "char \<Rightarrow> string \<Rightarrow> string \<Rightarrow> string" where
  \<comment> \<open>\<open>u.replace(/c/g, s)\<close> for a pattern of one pattern character\<close>
  "replaceChar c s u =
     (case replaceAll [Item [Chr c] One] (\<lambda>m. Inr s) u of Inl e \<Rightarrow> u | Inr z \<Rightarrow> z)"

definition escapeHtml :: "string \<Rightarrow> string" where
  "escapeHtml u =
     replaceChar squote ''&#039;''
       (replaceChar dquote ''&quot;''
         (replaceChar (CHR ''>'') ''&gt;''
           (replaceChar (CHR ''<'') ''&lt;''
             (replaceChar (CHR ''&'') ''&amp;'' u))))"

section \<open>Values, options and the rewrite\<close>

datatype jsval = VUndefined | VNull | VBool bool | VStr string | VOther string
  \<comment> \<open>\<open>VOther s\<close>: a value of any other type, given by the text \<open>String(value)\<close> yields\<close>

fun String :: "jsval \<Rightarrow> string" where
  "String VUndefined = ''undefined''"
| "String VNull = ''null''"
| "String (VBool b) = (if b then ''true'' else ''false'')"
| "String (VStr s) = s"
| "String (VOther s) = s"

definition isNullish :: "jsval \<Rightarrow> bool" where
  \<comment> \<open>\<open>value == null\<close>\<close>
  "isNullish v \<longleftrightarrow> v = VNull \<or> v = VUndefined"

datatype jsdata = DObject "(string \<times> jsval) list" | DArray "jsval list" | DValue jsval
  \<comment> \<open>a plain object with its own enumerable properties in \<open>for ... in\<close> order, an
      array, or anything that is no object (\<open>null\<close> and \<open>undefined\<close> among them)\<close>

fun isPlainObject :: "jsdata \<Rightarrow> bool" where
  \<comment> \<open>\<open>Object.prototype.toString.call(data) === '[object Object]'\<close>\<close>
  "isPlainObject (DObject _) = True"
| "isPlainObject _ = False"

fun entries :: "jsdata \<Rightarrow> (string \<times> jsval) list" where
  "entries (DObject kvs) = kvs"
| "entries _ = []"

datatype jsdoc = Str string | Buf "8 word list" | Null | Undefined

record options =
  preserveType :: bool
  startMarker :: string
  endMarker :: string
  allowRaw :: bool

definition defaultOptions :: options where
  "defaultOptions =
     \<lparr>preserveType = False, startMarker = ''start'', endMarker = ''end'', allowRaw = False\<rparr>"

fun isBuffer :: "jsdoc \<Rightarrow> bool" where
  "isBuffer (Buf _) = True"
| "isBuffer _ = False"

text \<open>
  The UTF-8 codec of \<open>Buffer\<close> is not code of the repository: \<open>ctx.toString('utf-8')\<close> and
  \<open>Buffer.from(ctx)\<close> are the parameters \<open>dec\<close> and \<open>enc\<close>.
\<close>

fun toString :: "(8 word list \<Rightarrow> string) \<Rightarrow> jsdoc \<Rightarrow> jsdoc" where
  "toString dec (Buf b) = Str (dec b)"
| "toString dec ctx = ctx"

fun isFalsy :: "jsdoc \<Rightarrow> bool" where
  "isFalsy (Str s) = (s = [])"
| "isFalsy (Buf _) = False"
| "isFalsy Null = True"
| "isFalsy Undefined = True"

fun bufferFrom :: "(string \<Rightarrow> 8 word list) \<Rightarrow> jsdoc \<Rightarrow> error + jsdoc" where
  "bufferFrom enc (Str s) = Inr (Buf (enc s))"
| "bufferFrom enc (Buf b) = Inr (Buf b)"
| "bufferFrom enc Null = Inl TypeError"
| "bufferFrom enc Undefined = Inl TypeError"

definition returnThis ::
  "(string \<Rightarrow> 8 word list) \<Rightarrow> options \<Rightarrow> bool \<Rightarrow> jsdoc \<Rightarrow> error + jsdoc" where
  "returnThis enc opts isBuf ctx =
     (if preserveType opts \<and> isBuf then bufferFrom enc ctx else Inr ctx)"

definition markerSrc :: "string \<Rightarrow> string \<Rightarrow> string" where
  \<comment> \<open>the template \<open><!--\\s*${escReg(key)}:${escReg(marker)}\\s*-->\<close>\<close>
  "markerSrc key marker =
     ''<!--'' @ [bsl] @ ''s*'' @ escReg key @ '':'' @ escReg marker @ [bsl] @ ''s*-->''"

definition blockSrc :: "string \<Rightarrow> string \<Rightarrow> string \<Rightarrow> string" where
  "blockSrc key sm em =
     markerSrc key sm @ ''['' @ [bsl] @ ''s'' @ [bsl] @ ''S]*?'' @ markerSrc key em"

definition render :: "options \<Rightarrow> jsval \<Rightarrow> string" where
  \<comment> \<open>\<open>allowRaw ? String(value) : escapeHtml(String(value))\<close>\<close>
  "render opts v = (if allowRaw opts then String v else escapeHtml (String v))"

definition replacer :: "regex \<Rightarrow> regex \<Rightarrow> string \<Rightarrow> string \<Rightarrow> error + string" where
  \<comment> \<open>the callback of \<open>replaceAll\<close>; \<open>startMatch![0]\<close> on \<open>null\<close> is a TypeError\<close>
  "replacer startReg endReg val m =
     (case matchAll startReg m of
        [] \<Rightarrow> Inl TypeError
      | s # _ \<Rightarrow>
          (case matchAll endReg m of
             [] \<Rightarrow> Inl TypeError
           | e # _ \<Rightarrow> Inr (s @ [newline] @ val @ [newline] @ e)))"

text \<open>The body of the loop for a key that is not reserved and whose value is not nullish.\<close>

definition rewriteKey :: "options \<Rightarrow> string \<Rightarrow> jsval \<Rightarrow> string \<Rightarrow> error + string" where
  "rewriteKey opts key v content =
     (case parseRegex (markerSrc key (startMarker opts)) of
        None \<Rightarrow> Inl SyntaxError
      | Some startReg \<Rightarrow>
     (case parseRegex (markerSrc key (endMarker opts)) of
        None \<Rightarrow> Inl SyntaxError
      | Some endReg \<Rightarrow>
     (case parseRegex (blockSrc key (startMarker opts) (endMarker opts)) of
        None \<Rightarrow> Inl SyntaxError
      | Some blockReg \<Rightarrow>
          (let startCount = length (matchAll startReg content);
               endCount = length (matchAll endReg content)
           in if startCount \<noteq> endCount then Inl (UnmatchedMarkers key startCount endCount)
              else replaceAll blockReg (replacer startReg endReg (render opts v)) content))))"

fun rewriteLoop :: "options \<Rightarrow> (string \<times> jsval) list \<Rightarrow> string \<Rightarrow> error + string" where
  "rewriteLoop opts [] content = Inr content"
| "rewriteLoop opts ((key, v) # rest) content =
     (if key = startMarker opts \<or> key = endMarker opts then Inl (ReservedKey key)
      else if isNullish v then rewriteLoop opts rest content
      else (case rewriteKey opts key v content of
              Inl e \<Rightarrow> Inl e
            | Inr content' \<Rightarrow> rewriteLoop opts rest content'))"

definition rewriteMdComment ::
  "(8 word list \<Rightarrow> string) \<Rightarrow> (string \<Rightarrow> 8 word list) \<Rightarrow>
     jsdoc \<Rightarrow> jsdata \<Rightarrow> options \<Rightarrow> error + jsdoc" where
  "rewriteMdComment dec enc input data opts =
     (let content = toString dec input in
      if isFalsy content \<or> \<not> isPlainObject data
        then returnThis enc opts (isBuffer input) content
      else if startMarker opts = [] \<or> endMarker opts = [] then Inl ConfigError
      else (case content of
              Str c \<Rightarrow>
                (case rewriteLoop opts (entries data) c of
                   Inl e \<Rightarrow> Inl e
                 | Inr c' \<Rightarrow> returnThis enc opts (isBuffer input) (Str c'))
            | _ \<Rightarrow> Inl TypeError))"

text \<open>The messages of the three errors the function throws itself.\<close>

function showNat :: "nat \<Rightarrow> string" where
  "showNat n =
     (if n < 10 then [char_of (48 + n)] else showNat (n div 10) @ [char_of (48 + n mod 10)])"
  by pat_completeness auto
termination
  by (relation "measure id") auto

declare showNat.simps [simp del]

fun message :: "error \<Rightarrow> string" where
  "message ConfigError = ''[rewrite.md] startMarker and endMarker must be defined.''"
| "message (ReservedKey key) =
     ''[rewrite.md] Data key '' @ [CHR 0x60] @ key @ [CHR 0x60] @ '' conflicts with marker name.''"
| "message (UnmatchedMarkers key s e) =
     ''[rewrite.md] Unmatched markers for key '' @ key @ '': start='' @ showNat s @
       '', end='' @ showNat e"

section \<open>The patterns the rewrite builds\<close>

definition lits :: "string \<Rightarrow> regex" where
  "lits s = map (\<lambda>c. Item [Chr c] One) s"

lemma lits_simps [simp]: "lits [] = []" "lits (c # s) = Item [Chr c] One # lits s"
  "lits (s @ t) = lits s @ lits t"
  by (simp_all add: lits_def)

lemma clsMatch_Chr [simp]: "clsMatch [Chr a] c \<longleftrightarrow> c = a"
  by (simp add: clsMatch_def)

lemma clsMatch_Space [simp]: "clsMatch [Space] c \<longleftrightarrow> isSpace c"
  by (simp add: clsMatch_def)

lemma clsMatch_any [simp]: "clsMatch [Space, NonSpace] c"
  by (simp add: clsMatch_def)

lemma rmatch_lits:
  "rmatch (lits s @ R) xs =
     (if prefix s xs then map_option ((+) (length s)) (rmatch R (drop (length s) xs)) else None)"
proof (induction s arbitrary: xs)
  case Nil
  show ?case by (cases "rmatch R xs") simp_all
next
  case (Cons c s)
  show ?case
  proof (cases xs)
    case Nil
    then show ?thesis by simp
  next
    case (Cons d t)
    then show ?thesis using Cons.IH[of t]
      by (auto simp: option.map_comp comp_def)
  qed
qed

definition escChar :: "char \<Rightarrow> string" where
  "escChar c = (if isSyntaxChar c then [bsl, c] else [c])"

lemma rmatch_single:
  "rmatch [Item cs One] xs = (case xs of [] \<Rightarrow> None | c # t \<Rightarrow> if clsMatch cs c then Some 1 else None)"
  by (cases xs) auto

lemma replaceAll_single:
  "replaceAll [Item cs One] (\<lambda>m. Inr (g m)) xs =
     Inr (concat (map (\<lambda>c. if clsMatch cs c then g [c] else [c]) xs))"
proof (induction xs)
  case Nil
  show ?case by (subst replaceAll.simps) (simp add: rmatch_single)
next
  case (Cons c t)
  show ?case
    by (subst replaceAll.simps) (simp add: rmatch_single Cons.IH)
qed

lemma clsMatch_escRegClass:
  "clsMatch [Chr (CHR ''.''), Chr (CHR ''*''), Chr (CHR ''+''), Chr (CHR ''?''), Chr (CHR ''^''),
            Chr (CHR ''$''), Chr (CHR ''{''), Chr (CHR ''}''), Chr (CHR ''(''), Chr (CHR '')''),
            Chr (CHR ''|''), Chr (CHR ''[''), Chr (CHR '']''), Chr bsl] c = isSyntaxChar c"
  by (auto simp: clsMatch_def isSyntaxChar_def)

lemma escReg_concat: "escReg v = concat (map escChar v)"
  unfolding escReg_def escRegClass_def
  by (simp add: replaceAll_single clsMatch_escRegClass escChar_def[abs_def])

lemma escReg_simps [simp]: "escReg [] = []" "escReg (c # v) = escChar c @ escReg v"
  "escReg (u @ v) = escReg u @ escReg v"
  by (simp_all add: escReg_concat)

lemma replaceChar_concat: "replaceChar a s u = concat (map (\<lambda>c. if c = a then s else [c]) u)"
  unfolding replaceChar_def by (simp add: replaceAll_single)

definition markerItems :: "string \<Rightarrow> regex" where
  "markerItems L =
     lits ''<!--'' @ Item [Space] (Star True) # lits L @ Item [Space] (Star True) # lits ''-->''"

definition markerRegex :: "string \<Rightarrow> string \<Rightarrow> regex" where
  "markerRegex key marker = markerItems (key @ '':'' @ marker)"

definition blockRegex :: "string \<Rightarrow> string \<Rightarrow> string \<Rightarrow> regex" where
  "blockRegex key sm em =
     markerRegex key sm @ [Item [Space, NonSpace] (Star False)] @ markerRegex key em"

fun noQuant :: "string \<Rightarrow> bool" where
  "noQuant [] = True"
| "noQuant (c # r) = (c \<noteq> CHR ''*'' \<and> c \<noteq> CHR ''+'' \<and> c \<noteq> CHR ''?'')"

lemma parseQuant_noQuant: "noQuant r \<Longrightarrow> parseQuant r = (One, r)"
  by (cases r) auto

lemma parseRegex_Nil [simp]: "parseRegex [] = Some []"
  by (simp add: parseRegex.simps)

lemma parseRegex_lit:
  "\<not> isSyntaxChar c \<Longrightarrow> noQuant r \<Longrightarrow>
     parseRegex (c # r) = map_option (\<lambda>is. Item [Chr c] One # is) (parseRegex r)"
  by (subst parseRegex.simps) (auto simp: parseQuant_noQuant isSyntaxChar_def)

lemma parseRegex_esc:
  "isSyntaxChar d \<Longrightarrow> noQuant r \<Longrightarrow>
     parseRegex (bsl # d # r) = map_option (\<lambda>is. Item [Chr d] One # is) (parseRegex r)"
  by (subst parseRegex.simps) (auto simp: parseQuant_noQuant isSyntaxChar_def)

lemma noQuant_escReg: "noQuant rest \<Longrightarrow> noQuant (escReg v @ rest)"
  by (cases v) (auto simp: escChar_def isSyntaxChar_def)

lemma parseRegex_escReg:
  "noQuant rest \<Longrightarrow> parseRegex (escReg v @ rest) = map_option (\<lambda>is. lits v @ is) (parseRegex rest)"
proof (induction v)
  case Nil
  show ?case by (cases "parseRegex rest") simp_all
next
  case (Cons c v)
  have nq: "noQuant (escReg v @ rest)" using Cons.prems by (rule noQuant_escReg)
  show ?case
  proof (cases "isSyntaxChar c")
    case True
    then show ?thesis
      using parseRegex_esc[OF True nq] Cons.IH[OF Cons.prems]
      by (simp add: escChar_def option.map_comp comp_def)
  next
    case False
    then show ?thesis
      using parseRegex_lit[OF False nq] Cons.IH[OF Cons.prems]
      by (simp add: escChar_def option.map_comp comp_def)
  qed
qed

lemma parseRegex_spaces:
  "noQuant r \<Longrightarrow>
     parseRegex (bsl # CHR ''s'' # CHR ''*'' # r) =
       map_option (\<lambda>is. Item [Space] (Star True) # is) (parseRegex r)"
  by (subst parseRegex.simps) (cases r, auto)

lemma parseRegex_any:
  "parseRegex (CHR ''['' # bsl # CHR ''s'' # bsl # CHR ''S'' # CHR '']'' # CHR ''*'' # CHR ''?'' # r) =
       map_option (\<lambda>is. Item [Space, NonSpace] (Star False) # is) (parseRegex r)"
  by (subst parseRegex.simps) (simp add: parseClass.simps isSyntaxChar_def)

lemma parseRegex_markerSrc_append:
  assumes "noQuant rest"
  shows "parseRegex (markerSrc k m @ rest) = map_option (\<lambda>is. markerRegex k m @ is) (parseRegex rest)"
proof -
  have tail: "parseRegex (bsl # CHR ''s'' # CHR ''*'' # ''-->'' @ rest) =
      map_option (\<lambda>is. Item [Space] (Star True) # lits ''-->'' @ is) (parseRegex rest)"
    using assms
    by (simp add: parseRegex_spaces parseRegex_lit isSyntaxChar_def option.map_comp comp_def)
  have mid: "parseRegex (escReg k @ CHR '':'' # escReg m @ bsl # CHR ''s'' # CHR ''*'' # ''-->'' @ rest) =
      map_option (\<lambda>is. lits (k @ '':'' @ m) @ Item [Space] (Star True) # lits ''-->'' @ is)
        (parseRegex rest)"
  proof -
    have "parseRegex (escReg m @ (bsl # CHR ''s'' # CHR ''*'' # ''-->'' @ rest)) =
        map_option (\<lambda>is. lits m @ is) (parseRegex (bsl # CHR ''s'' # CHR ''*'' # ''-->'' @ rest))"
      by (rule parseRegex_escReg) simp
    moreover have "parseRegex (CHR '':'' # escReg m @ (bsl # CHR ''s'' # CHR ''*'' # ''-->'' @ rest)) =
        map_option (\<lambda>is. Item [Chr (CHR '':'')] One # is)
          (parseRegex (escReg m @ (bsl # CHR ''s'' # CHR ''*'' # ''-->'' @ rest)))"
      by (rule parseRegex_lit) (simp_all add: isSyntaxChar_def noQuant_escReg)
    moreover have "parseRegex (escReg k @ (CHR '':'' # escReg m @ (bsl # CHR ''s'' # CHR ''*'' # ''-->'' @ rest))) =
        map_option (\<lambda>is. lits k @ is)
          (parseRegex (CHR '':'' # escReg m @ (bsl # CHR ''s'' # CHR ''*'' # ''-->'' @ rest)))"
      by (rule parseRegex_escReg) simp
    ultimately show ?thesis
      using tail by (simp add: option.map_comp comp_def)
  qed
  have nq: "noQuant (escReg k @ CHR '':'' # escReg m @ bsl # CHR ''s'' # CHR ''*'' # ''-->'' @ rest)"
    by (rule noQuant_escReg) simp
  show ?thesis
    unfolding markerSrc_def markerRegex_def markerItems_def
    using nq mid
    by (simp add: parseRegex_lit parseRegex_spaces isSyntaxChar_def option.map_comp comp_def)
qed

lemma parseRegex_markerSrc: "parseRegex (markerSrc k m) = Some (markerRegex k m)"
  using parseRegex_markerSrc_append[of "[]" k m] by simp

lemma noQuant_markerSrc: "noQuant (markerSrc k m @ rest)"
  by (simp add: markerSrc_def)

lemma parseRegex_blockSrc: "parseRegex (blockSrc k sm em) = Some (blockRegex k sm em)"
proof -
  have "parseRegex (markerSrc k sm @ (''['' @ [bsl] @ ''s'' @ [bsl] @ ''S]*?'' @ markerSrc k em)) =
      map_option (\<lambda>is. markerRegex k sm @ is)
        (parseRegex (''['' @ [bsl] @ ''s'' @ [bsl] @ ''S]*?'' @ markerSrc k em))"
    by (rule parseRegex_markerSrc_append) simp
  then show ?thesis
    by (simp add: blockSrc_def blockRegex_def parseRegex_any parseRegex_markerSrc)
qed

section \<open>What the marker patterns match\<close>

lemma lead_prefix:
  assumes "prefix L ys" and "\<exists>c\<in>set L. \<not> isSpace c"
  shows "takeWhile isSpace ys = takeWhile isSpace L"
proof -
  from assms(1) obtain r where "ys = L @ r" by (auto simp: prefix_def)
  with assms(2) show ?thesis by (auto simp: takeWhile_append1)
qed

lemma rmatch_spaces_end:
  assumes "\<And>c t. isSpace c \<Longrightarrow> rmatch K (c # t) = None"
  shows "rmatch (Item [Space] (Star True) # K) xs =
           map_option ((+) (length (takeWhile isSpace xs))) (rmatch K (dropWhile isSpace xs))"
proof (induction xs)
  case Nil
  show ?case by (cases "rmatch K []") simp_all
next
  case (Cons c t)
  show ?case
  proof (cases "isSpace c")
    case True
    have "rmatch K (c # t) = None" using assms[OF True] .
    then show ?thesis using True Cons.IH
      by (cases "rmatch K (dropWhile isSpace t)") simp_all
  next
    case False
    then show ?thesis by (cases "rmatch K (c # t)") simp_all
  qed
qed

definition lead :: "string \<Rightarrow> nat" where
  "lead xs = length (takeWhile isSpace xs)"

lemma lead_simps [simp]: "lead [] = 0" "lead (c # t) = (if isSpace c then Suc (lead t) else 0)"
  by (simp_all add: lead_def)

lemma lead_eq_prefix:
  assumes "prefix L ys" and "\<exists>c\<in>set L. \<not> isSpace c"
  shows "lead ys = lead L"
  using lead_prefix[OF assms] by (simp add: lead_def)

lemma rmatch_spaces_lits:
  assumes ns: "\<exists>c\<in>set L. \<not> isSpace c"
  shows "rmatch (Item [Space] (Star True) # lits L @ K) xs =
     (if lead L \<le> lead xs \<and> prefix L (drop (lead xs - lead L) xs)
      then map_option ((+) (lead xs - lead L + length L))
             (rmatch K (drop (lead xs - lead L + length L) xs))
      else None)"
proof (induction xs)
  case Nil
  from ns have "L \<noteq> []" by auto
  then show ?case by (simp add: rmatch_lits)
next
  case (Cons c t)
  let ?S = "Item [Space] (Star True) # lits L @ K"
  have here: "rmatch (lits L @ K) (c # t) =
      (if prefix L (c # t) then map_option ((+) (length L)) (rmatch K (drop (length L) (c # t)))
       else None)"
    by (rule rmatch_lits)
  have pre_lead: "prefix L (c # t) \<Longrightarrow> lead (c # t) = lead L"
    by (rule lead_eq_prefix[OF _ ns])
  show ?case
  proof (cases "isSpace c")
    case False
    then have step: "rmatch ?S (c # t) = rmatch (lits L @ K) (c # t)" by simp
    have l0: "lead (c # t) = 0" using False by simp
    show ?thesis
    proof (cases "prefix L (c # t)")
      case True
      then have "lead L = 0" using pre_lead l0 by simp
      then show ?thesis unfolding step here l0 using True by simp
    next
      case np: False
      have "\<not> (lead L \<le> 0 \<and> prefix L (drop (0 - lead L) (c # t)))"
        using np by auto
      then show ?thesis unfolding step here l0 using np by simp
    qed
  next
    case True
    have step: "rmatch ?S (c # t) =
        (case rmatch ?S t of Some n \<Rightarrow> Some (Suc n) | None \<Rightarrow> rmatch (lits L @ K) (c # t))"
      using True by simp
    have lc: "lead (c # t) = Suc (lead t)" using True by simp
    show ?thesis
    proof (cases "lead L \<le> lead t \<and> prefix L (drop (lead t - lead L) t)")
      case A: True
      have np: "\<not> prefix L (c # t)"
      proof
        assume "prefix L (c # t)"
        then have "lead L = Suc (lead t)" using pre_lead lc by simp
        with A show False by simp
      qed
      have d: "Suc (lead t) - lead L = Suc (lead t - lead L)" using A by (simp add: Suc_diff_le)
      have ih: "rmatch ?S t = map_option ((+) (lead t - lead L + length L))
             (rmatch K (drop (lead t - lead L + length L) t))"
        using Cons.IH A by simp
      have cond: "lead L \<le> Suc (lead t) \<and> prefix L (drop (Suc (lead t) - lead L) (c # t))"
        using A d by simp
      show ?thesis
        unfolding step ih here lc using cond np d
        by (cases "rmatch K (drop (lead t - lead L + length L) t)") simp_all
    next
      case B: False
      have ih: "rmatch ?S t = None" using Cons.IH B by simp
      show ?thesis
      proof (cases "prefix L (c # t)")
        case P: True
        then have e: "lead L = Suc (lead t)" using pre_lead lc by simp
        show ?thesis unfolding step ih here lc using P e by simp
      next
        case P: False
        have "\<not> (lead L \<le> Suc (lead t) \<and> prefix L (drop (Suc (lead t) - lead L) (c # t)))"
        proof
          assume h: "lead L \<le> Suc (lead t) \<and> prefix L (drop (Suc (lead t) - lead L) (c # t))"
          show False
          proof (cases "lead L = Suc (lead t)")
            case True
            with h P show False by simp
          next
            case False
            with h have le: "lead L \<le> lead t" by simp
            then have "Suc (lead t) - lead L = Suc (lead t - lead L)" by (simp add: Suc_diff_le)
            with h have "prefix L (drop (lead t - lead L) t)" by simp
            with le B show False by simp
          qed
        qed
        then show ?thesis unfolding step ih here lc using P by auto
      qed
    qed
  qed
qed

definition markerRest :: "string \<Rightarrow> string \<Rightarrow> nat option" where
  "markerRest L r1 =
     (let k = lead r1 - lead L
      in if lead L \<le> lead r1 \<and> prefix L (drop k r1) then
           (let r2 = drop (k + length L) r1
            in if prefix ''-->'' (dropWhile isSpace r2)
               then Some (k + length L + (lead r2 + 3)) else None)
         else None)"

definition markerLength :: "string \<Rightarrow> string \<Rightarrow> nat option" where
  "markerLength L xs =
     (if prefix ''<!--'' xs then map_option ((+) 4) (markerRest L (drop 4 xs)) else None)"

lemma dropWhile_lead: "dropWhile isSpace xs = drop (lead xs) xs"
  by (simp add: lead_def dropWhile_eq_drop)

lemma rmatch_markerRest:
  assumes ns: "\<exists>c\<in>set L. \<not> isSpace c"
  shows "rmatch (Item [Space] (Star True) # lits L @ Item [Space] (Star True) # lits ''-->'' @ R) r1 =
     (case markerRest L r1 of
        None \<Rightarrow> None
      | Some n \<Rightarrow> map_option ((+) n) (rmatch R (drop n r1)))"
proof -
  let ?K2 = "lits ''-->'' @ R"
  let ?K1 = "Item [Space] (Star True) # ?K2"
  have k2: "rmatch (Item [Space] (Star True) # ?K2) ys =
      map_option ((+) (lead ys)) (rmatch ?K2 (dropWhile isSpace ys))" for ys
    unfolding lead_def
    by (rule rmatch_spaces_end) (auto simp: isSpace_def)
  have k2': "rmatch ?K2 zs =
      (if prefix ''-->'' zs then map_option ((+) 3) (rmatch R (drop 3 zs)) else None)" for zs
    using rmatch_lits[of "''-->''" R zs] by (simp add: eval_nat_numeral)
  have k1: "rmatch (Item [Space] (Star True) # lits L @ ?K1) ys =
     (if lead L \<le> lead ys \<and> prefix L (drop (lead ys - lead L) ys)
      then map_option ((+) (lead ys - lead L + length L))
             (rmatch ?K1 (drop (lead ys - lead L + length L) ys))
      else None)" for ys
    by (rule rmatch_spaces_lits[OF ns])
  define k where "k = lead r1 - lead L"
  show ?thesis
  proof (cases "lead L \<le> lead r1 \<and> prefix L (drop k r1)")
    case False
    then have "markerRest L r1 = None"
      by (auto simp: markerRest_def k_def Let_def)
    moreover have "rmatch (Item [Space] (Star True) # lits L @ ?K1) r1 = None"
      unfolding k1 using False by (auto simp: k_def)
    ultimately show ?thesis by simp
  next
    case p1: True
    define r2 where "r2 = drop (k + length L) r1"
    have dd: "drop 3 (drop (lead r2) r2) = drop (k + length L + (lead r2 + 3)) r1"
      by (simp add: r2_def add.commute add.left_commute)
    have ml: "markerRest L r1 =
        (if prefix ''-->'' (dropWhile isSpace r2)
         then Some (k + length L + (lead r2 + 3)) else None)"
      using p1 unfolding markerRest_def k_def[symmetric] Let_def r2_def[symmetric] by simp
    have lhs: "rmatch (Item [Space] (Star True) # lits L @ ?K1) r1 =
        map_option ((+) (k + length L)) (rmatch ?K1 r2)"
      unfolding k1 k_def[symmetric] r2_def[symmetric] using p1 by simp
    show ?thesis
    proof (cases "prefix ''-->'' (dropWhile isSpace r2)")
      case False
      then show ?thesis unfolding lhs ml k2 k2' by simp
    next
      case True
      have "rmatch ?K1 r2 = map_option ((+) (lead r2 + 3)) (rmatch R (drop 3 (drop (lead r2) r2)))"
        unfolding k2 k2' using True
        by (cases "rmatch R (drop 3 (drop (lead r2) r2))")
           (simp_all add: dropWhile_lead del: drop_drop)
      then show ?thesis unfolding lhs ml dd using True
        by (cases "rmatch R (drop (k + length L + (lead r2 + 3)) r1)") simp_all
    qed
  qed
qed

lemma rmatch_markerItems:
  assumes ns: "\<exists>c\<in>set L. \<not> isSpace c"
  shows "rmatch (markerItems L @ R) xs =
     (case markerLength L xs of
        None \<Rightarrow> None
      | Some n \<Rightarrow> map_option ((+) n) (rmatch R (drop n xs)))"
proof -
  let ?T = "Item [Space] (Star True) # lits L @ Item [Space] (Star True) # lits ''-->'' @ R"
  have k0: "rmatch (lits ''<!--'' @ ?T) xs =
     (if prefix ''<!--'' xs then map_option ((+) 4) (rmatch ?T (drop 4 xs)) else None)"
    using rmatch_lits[of "''<!--''" ?T xs] by (simp add: eval_nat_numeral)
  have items: "markerItems L @ R = lits ''<!--'' @ ?T"
    by (simp add: markerItems_def)
  show ?thesis
  proof (cases "prefix ''<!--'' xs")
    case False
    then show ?thesis unfolding items k0 by (simp add: markerLength_def)
  next
    case True
    show ?thesis
    proof (cases "markerRest L (drop 4 xs)")
      case None
      then show ?thesis unfolding items k0 rmatch_markerRest[OF ns] using True
        by (simp add: markerLength_def)
    next
      case (Some n)
      have "drop n (drop 4 xs) = drop (4 + n) xs" by (simp add: add.commute)
      then show ?thesis unfolding items k0 rmatch_markerRest[OF ns] using True Some
        by (cases "rmatch R (drop (4 + n) xs)") (simp_all add: markerLength_def del: drop_drop)
    qed
  qed
qed

definition isMarkerText :: "string \<Rightarrow> string \<Rightarrow> bool" where
  "isMarkerText L s \<longleftrightarrow>
     (\<exists>a b. list_all isSpace a \<and> list_all isSpace b \<and> s = ''<!--'' @ a @ L @ b @ ''-->'')"

lemma lead_le_length: "lead xs \<le> length xs"
  by (simp add: lead_def length_takeWhile_le)

lemma lead_append_spaces: "list_all isSpace a \<Longrightarrow> lead (a @ ys) = length a + lead ys"
  by (induction a) simp_all

lemma lead_spaces_stop: "list_all isSpace b \<Longrightarrow> \<not> isSpace c \<Longrightarrow> lead (b @ c # ys) = length b"
  by (simp add: lead_append_spaces)

lemma take_lead_spaces: "k \<le> lead xs \<Longrightarrow> list_all isSpace (take k xs)"
proof (induction xs arbitrary: k)
  case Nil
  then show ?case by simp
next
  case (Cons c t)
  then show ?case by (cases k) (auto split: if_splits)
qed

lemma markerRest_I:
  assumes ns: "\<exists>c\<in>set L. \<not> isSpace c"
    and a: "list_all isSpace a" and b: "list_all isSpace b"
  shows "markerRest L (a @ L @ b @ ''-->'' @ rest) = Some (length a + length L + (length b + 3))"
proof -
  let ?r1 = "a @ L @ b @ ''-->'' @ rest"
  have "lead (L @ b @ ''-->'' @ rest) = lead L"
    by (rule lead_eq_prefix[OF _ ns]) simp
  then have l1: "lead ?r1 = length a + lead L"
    using lead_append_spaces[OF a] by simp
  then have k: "lead ?r1 - lead L = length a" by simp
  have r2: "drop (length a + length L) ?r1 = b @ ''-->'' @ rest" by simp
  have lb: "lead (b @ ''-->'' @ rest) = length b"
    using lead_spaces_stop[OF b, of "CHR ''-''" "''->'' @ rest"] by (simp add: isSpace_def)
  have dw: "dropWhile isSpace (b @ ''-->'' @ rest) = ''-->'' @ rest"
    unfolding dropWhile_lead lb by simp
  show ?thesis
    unfolding markerRest_def k Let_def r2 dw lb using l1 by simp
qed

lemma markerRest_D:
  assumes "markerRest L r1 = Some n"
  shows "\<exists>a b. list_all isSpace a \<and> list_all isSpace b \<and>
           take n r1 = a @ L @ b @ ''-->'' \<and> n \<le> length r1"
proof -
  define k where "k = lead r1 - lead L"
  define r2 where "r2 = drop (k + length L) r1"
  from assms have c1: "lead L \<le> lead r1" and p1: "prefix L (drop k r1)"
    and p2: "prefix ''-->'' (dropWhile isSpace r2)"
    and n: "n = k + length L + (lead r2 + 3)"
    unfolding markerRest_def k_def[symmetric] Let_def r2_def[symmetric]
    by (auto split: if_splits)
  have kl: "k \<le> lead r1" by (simp add: k_def)
  then have klen: "k \<le> length r1" using lead_le_length[of r1] by simp
  have sa: "list_all isSpace (take k r1)" using kl by (rule take_lead_spaces)
  have sb: "list_all isSpace (take (lead r2) r2)" by (rule take_lead_spaces) simp
  from p1 obtain zs where zs: "drop k r1 = L @ zs" by (auto simp: prefix_def)
  have "r2 = drop (length L) (drop k r1)" by (simp add: r2_def add.commute)
  with zs have d1: "drop k r1 = L @ r2" by simp
  from p2 obtain z where d2: "drop (lead r2) r2 = ''-->'' @ z"
    by (auto simp: prefix_def dropWhile_lead)
  have "r2 = take (lead r2) r2 @ drop (lead r2) r2" by simp
  with d2 have r2eq: "r2 = take (lead r2) r2 @ ''-->'' @ z" by simp
  have "r1 = take k r1 @ drop k r1" by simp
  with d1 r2eq have r1eq: "r1 = take k r1 @ L @ take (lead r2) r2 @ ''-->'' @ z" by simp
  have la: "length (take k r1) = k" using klen by simp
  have lb: "length (take (lead r2) r2) = lead r2" using lead_le_length[of r2] by simp
  have "take n r1 = take n (take k r1 @ L @ take (lead r2) r2 @ ''-->'' @ z)"
    using r1eq by simp
  also have "\<dots> = take k r1 @ L @ take (lead r2) r2 @ ''-->''"
    using la lb n by simp
  finally have t: "take n r1 = take k r1 @ L @ take (lead r2) r2 @ ''-->''" .
  have "length r1 = length (take k r1 @ L @ take (lead r2) r2 @ ''-->'' @ z)"
    using r1eq by simp
  then have "n \<le> length r1" using la lb n by simp
  with sa sb t show ?thesis by blast
qed

lemma markerLength_I:
  assumes ns: "\<exists>c\<in>set L. \<not> isSpace c"
    and a: "list_all isSpace a" and b: "list_all isSpace b"
  shows "markerLength L (''<!--'' @ a @ L @ b @ ''-->'' @ rest) =
           Some (length (''<!--'' @ a @ L @ b @ ''-->''))"
  using markerRest_I[OF ns a b, of rest] by (simp add: markerLength_def)

lemma markerLength_D:
  assumes "markerLength L xs = Some n"
  shows "n \<le> length xs \<and> isMarkerText L (take n xs)"
proof -
  from assms obtain m r1 where xs: "xs = ''<!--'' @ r1" and m: "markerRest L r1 = Some m"
    and n: "n = 4 + m"
    by (auto simp: markerLength_def prefix_def split: if_splits)
  from markerRest_D[OF m] obtain a b where ab: "list_all isSpace a" "list_all isSpace b"
    and t: "take m r1 = a @ L @ b @ ''-->''" and le: "m \<le> length r1" by blast
  have "take n xs = take 4 xs @ take m (drop 4 xs)" unfolding n by (rule take_add)
  then have "take n xs = ''<!--'' @ take m r1" using xs by simp
  with t ab have "isMarkerText L (take n xs)" by (auto simp: isMarkerText_def)
  moreover have "n \<le> length xs" using xs n le by simp
  ultimately show ?thesis by simp
qed

lemma markerLength_iff:
  assumes ns: "\<exists>c\<in>set L. \<not> isSpace c"
  shows "markerLength L xs = Some n \<longleftrightarrow> n \<le> length xs \<and> isMarkerText L (take n xs)"
proof
  assume "markerLength L xs = Some n"
  then show "n \<le> length xs \<and> isMarkerText L (take n xs)" by (rule markerLength_D)
next
  assume h: "n \<le> length xs \<and> isMarkerText L (take n xs)"
  then obtain a b where ab: "list_all isSpace a" "list_all isSpace b"
    and t: "take n xs = ''<!--'' @ a @ L @ b @ ''-->''" by (auto simp: isMarkerText_def)
  have "xs = take n xs @ drop n xs" by simp
  with t have xs: "xs = ''<!--'' @ a @ L @ b @ ''-->'' @ drop n xs" by simp
  have "length (take n xs) = n" using h by simp
  with t have n: "n = length (''<!--'' @ a @ L @ b @ ''-->'')" by simp
  show "markerLength L xs = Some n"
    using markerLength_I[OF ns ab, of "drop n xs"] xs n by simp
qed

section \<open>The marker of a key and the loop\<close>

text \<open>
  For concrete examples: on bytes below 128 the UTF-8 codec maps bytes and code units one
  to one.
\<close>

definition decodeAscii :: "8 word list \<Rightarrow> string" where
  "decodeAscii bs = map (\<lambda>b. char_of (unat b)) bs"

definition encodeAscii :: "string \<Rightarrow> 8 word list" where
  "encodeAscii s = map (\<lambda>c. of_nat (of_char c)) s"

text \<open>\<open>typeof result === 'string'\<close>\<close>

fun isText :: "jsdoc \<Rightarrow> bool" where
  "isText (Str _) = True"
| "isText _ = False"

text \<open>
  A marker for a key and a role: the comment delimiters around the literal text
  \<open>key:role\<close>, with any white space between the delimiters and that text.
\<close>

definition isMarker :: "string \<Rightarrow> string \<Rightarrow> string \<Rightarrow> bool" where
  "isMarker key marker s = isMarkerText (key @ '':'' @ marker) s"

lemma rewriteKey_eq:
  "rewriteKey opts key v content =
     (let startCount = length (matchAll (markerRegex key (startMarker opts)) content);
          endCount = length (matchAll (markerRegex key (endMarker opts)) content)
      in if startCount \<noteq> endCount then Inl (UnmatchedMarkers key startCount endCount)
         else replaceAll (blockRegex key (startMarker opts) (endMarker opts))
                (replacer (markerRegex key (startMarker opts)) (markerRegex key (endMarker opts))
                   (render opts v)) content)"
  by (simp add: rewriteKey_def parseRegex_markerSrc parseRegex_blockSrc)

lemma rewriteLoop_append:
  "rewriteLoop opts (pre @ post) c =
     (case rewriteLoop opts pre c of Inl e \<Rightarrow> Inl e | Inr c' \<Rightarrow> rewriteLoop opts post c')"
  by (induction pre arbitrary: c) (auto split: sum.splits)

lemma marker_nonspace: "\<exists>c\<in>set (key @ '':'' @ marker). \<not> isSpace c"
  by (auto simp: isSpace_def)

lemma rmatch_markerRegex: "rmatch (markerRegex key marker) xs = markerLength (key @ '':'' @ marker) xs"
  using rmatch_markerItems[OF marker_nonspace, of key marker "[]" xs]
  by (cases "markerLength (key @ '':'' @ marker) xs") (simp_all add: markerRegex_def)

section \<open>Scanning a document\<close>

lemma rmatch_markerItems_plain:
  assumes ns: "\<exists>c\<in>set L. \<not> isSpace c"
  shows "rmatch (markerItems L) xs = markerLength L xs"
  using rmatch_markerItems[OF ns, of "[]" xs]
  by (cases "markerLength L xs") simp_all

lemma markerLength_pos: "markerLength L xs = Some n \<Longrightarrow> 0 < n"
  by (auto simp: markerLength_def split: if_splits)

lemma markerLength_Nil [simp]: "markerLength L [] = None"
  by (simp add: markerLength_def)

lemma markerLength_less:
  "markerLength L xs = Some n \<Longrightarrow> hd xs = CHR ''<'' \<and> xs \<noteq> []"
  by (auto simp: markerLength_def prefix_def split: if_splits)

lemma markerLength_cong:
  assumes ns: "\<exists>c\<in>set L. \<not> isSpace c"
    and m: "markerLength L xs = Some a" and t: "take a ys = take a xs" and l: "a \<le> length ys"
  shows "markerLength L ys = Some a"
  using markerLength_iff[OF ns, of xs a] markerLength_iff[OF ns, of ys a] m t l by simp

lemma markerLength_append:
  assumes ns: "\<exists>c\<in>set L. \<not> isSpace c" and m: "isMarkerText L s"
  shows "markerLength L (s @ r) = Some (length s)"
  using markerLength_iff[OF ns, of "s @ r" "length s"] m by simp

lemma matchAll_Nil_iff: "matchAll re [] = (case rmatch re [] of None \<Rightarrow> [] | Some n \<Rightarrow> [[]])"
  by (subst matchAll.simps) (simp split: option.splits)

lemma matchAll_first:
  assumes "rmatch re (drop p xs) = Some n" and "\<forall>q<p. rmatch re (drop q xs) = None"
    and "p \<le> length xs"
  shows "\<exists>es. matchAll re xs = take n (drop p xs) # es"
  using assms
proof (induction p arbitrary: xs)
  case 0
  then show ?case by (subst matchAll.simps) simp
next
  case (Suc p)
  from Suc.prems(3) obtain c t where xs: "xs = c # t" by (cases xs) auto
  from Suc.prems(2) have none: "rmatch re xs = None" by (metis drop0 zero_less_Suc)
  have "\<forall>q<p. rmatch re (drop q t) = None"
  proof (intro allI impI)
    fix q assume "q < p"
    then have "rmatch re (drop (Suc q) xs) = None" using Suc.prems(2) by simp
    then show "rmatch re (drop q t) = None" by (simp add: xs)
  qed
  moreover have "rmatch re (drop p t) = Some n" using Suc.prems(1) by (simp add: xs)
  moreover have "p \<le> length t" using Suc.prems(3) by (simp add: xs)
  ultimately obtain es where "matchAll re t = take n (drop p t) # es"
    using Suc.IH by blast
  then show ?case using none xs by (subst matchAll.simps) simp
qed

lemma first_position:
  fixes P :: "nat \<Rightarrow> bool"
  assumes "P p"
  shows "\<exists>q\<le>p. P q \<and> (\<forall>r<q. \<not> P r)"
proof -
  have "P (LEAST q. P q)" using assms by (rule LeastI)
  moreover have "(LEAST q. P q) \<le> p" using assms by (rule Least_le)
  moreover have "\<forall>r<(LEAST q. P q). \<not> P r" using not_less_Least by blast
  ultimately show ?thesis by blast
qed

lemma matchAll_nonempty:
  assumes "rmatch re (drop p xs) = Some n" and "p \<le> length xs"
  shows "\<exists>q m es. q \<le> p \<and> rmatch re (drop q xs) = Some m \<and>
           (\<forall>r<q. rmatch re (drop r xs) = None) \<and> matchAll re xs = take m (drop q xs) # es"
proof -
  from first_position[of "\<lambda>q. rmatch re (drop q xs) \<noteq> None" p] assms(1)
  obtain q where q: "q \<le> p" "rmatch re (drop q xs) \<noteq> None"
    "\<forall>r<q. rmatch re (drop r xs) = None" by auto
  then obtain m where m: "rmatch re (drop q xs) = Some m" by auto
  from matchAll_first[OF m q(3)] q(1) assms(2) obtain es where
    "matchAll re xs = take m (drop q xs) # es" by auto
  with q m show ?thesis by blast
qed

lemma replaceAll_Nil: "rmatch re [] = None \<Longrightarrow> replaceAll re f [] = Inr []"
  by (subst replaceAll.simps) simp

lemma replaceAll_skip:
  "rmatch re (c # t) = None \<Longrightarrow>
     replaceAll re f (c # t) = (case replaceAll re f t of Inl e \<Rightarrow> Inl e | Inr z \<Rightarrow> Inr (c # z))"
  by (subst replaceAll.simps) simp

lemma replaceAll_match:
  assumes "rmatch re xs = Some n" and "0 < n" and "n \<le> length xs"
  shows "replaceAll re f xs =
     (case f (take n xs) of
        Inl e \<Rightarrow> Inl e
      | Inr s \<Rightarrow> (case replaceAll re f (drop n xs) of Inl e \<Rightarrow> Inl e | Inr z \<Rightarrow> Inr (s @ z)))"
proof -
  from assms obtain c t where xs: "xs = c # t" by (cases xs) auto
  from assms(2) obtain k where n: "n = Suc k" by (cases n) auto
  show ?thesis
    using assms(1) unfolding xs n
    by (subst replaceAll.simps) (simp split: sum.splits)
qed

lemma replaceAll_id:
  assumes "\<forall>p. rmatch re (drop p xs) = None"
  shows "replaceAll re f xs = Inr xs"
  using assms
proof (induction xs)
  case Nil
  then show ?case by (simp add: replaceAll_Nil)
next
  case (Cons c t)
  have "rmatch re (c # t) = None" using Cons.prems by (metis drop0)
  moreover have "\<forall>p. rmatch re (drop p t) = None"
  proof
    fix p show "rmatch re (drop p t) = None" using Cons.prems[rule_format, of "Suc p"] by simp
  qed
  ultimately show ?case using Cons.IH by (simp add: replaceAll_skip)
qed

subsection \<open>Blocks\<close>

text \<open>
  What the block pattern matches at the head of a text: a start marker, then the shortest
  stretch up to an end marker.
\<close>

fun findEnd :: "string \<Rightarrow> string \<Rightarrow> nat option" where
  "findEnd L [] = None"
| "findEnd L (c # t) =
     (case markerLength L (c # t) of
        Some n \<Rightarrow> Some n
      | None \<Rightarrow> map_option Suc (findEnd L t))"

definition blockLength :: "string \<Rightarrow> string \<Rightarrow> string \<Rightarrow> nat option" where
  "blockLength Ls Le xs =
     (case markerLength Ls xs of
        None \<Rightarrow> None
      | Some n \<Rightarrow> map_option ((+) n) (findEnd Le (drop n xs)))"

lemma rmatch_lazy_marker:
  assumes ns: "\<exists>c\<in>set L. \<not> isSpace c"
  shows "rmatch (Item [Space, NonSpace] (Star False) # markerItems L) ys = findEnd L ys"
proof (induction ys)
  case Nil
  show ?case by (simp add: rmatch_markerItems_plain[OF ns])
next
  case (Cons c t)
  show ?case
    by (simp add: rmatch_markerItems_plain[OF ns] Cons.IH split: option.splits)
qed

lemma rmatch_blockRegex:
  "rmatch (blockRegex key sm em) xs = blockLength (key @ '':'' @ sm) (key @ '':'' @ em) xs"
  using rmatch_markerItems[OF marker_nonspace,
      of key sm "Item [Space, NonSpace] (Star False) # markerItems (key @ '':'' @ em)" xs,
      unfolded rmatch_lazy_marker[OF marker_nonspace]]
  by (simp add: blockRegex_def markerRegex_def blockLength_def cong: option.case_cong)

lemma findEnd_SomeD:
  "findEnd L ys = Some m \<Longrightarrow>
     \<exists>p e. m = p + e \<and> markerLength L (drop p ys) = Some e \<and> p < length ys \<and>
       (\<forall>q<p. markerLength L (drop q ys) = None)"
proof (induction ys arbitrary: m)
  case Nil
  then show ?case by simp
next
  case (Cons c t)
  show ?case
  proof (cases "markerLength L (c # t)")
    case (Some n)
    with Cons.prems have "m = n" by simp
    with Some show ?thesis by (intro exI[of _ 0] exI[of _ n]) simp
  next
    case None
    with Cons.prems obtain m' where m': "findEnd L t = Some m'" "m = Suc m'" by auto
    from Cons.IH[OF m'(1)] obtain p e where pe: "m' = p + e"
      "markerLength L (drop p t) = Some e" "p < length t"
      "\<forall>q<p. markerLength L (drop q t) = None" by blast
    have "\<forall>q<Suc p. markerLength L (drop q (c # t)) = None"
    proof (intro allI impI)
      fix q assume "q < Suc p"
      then show "markerLength L (drop q (c # t)) = None"
        using None pe(4) by (cases q) auto
    qed
    with pe m'(2) show ?thesis
      by (intro exI[of _ "Suc p"] exI[of _ e]) simp
  qed
qed

lemma findEnd_SomeI:
  assumes "markerLength L (drop p ys) = Some e" and "\<forall>q<p. markerLength L (drop q ys) = None"
  shows "findEnd L ys = Some (p + e)"
  using assms
proof (induction p arbitrary: ys)
  case 0
  then show ?case by (cases ys) simp_all
next
  case (Suc p)
  from Suc.prems(1) obtain c t where ys: "ys = c # t" by (cases ys) auto
  have none: "markerLength L (c # t) = None" using Suc.prems(2) ys by (metis drop0 zero_less_Suc)
  have a: "\<forall>q<p. markerLength L (drop q t) = None"
  proof (intro allI impI)
    fix q assume "q < p"
    then have "markerLength L (drop (Suc q) ys) = None" using Suc.prems(2) by simp
    then show "markerLength L (drop q t) = None" by (simp add: ys)
  qed
  have b: "markerLength L (drop p t) = Some e" using Suc.prems(1) by (simp add: ys)
  have "findEnd L t = Some (p + e)" using b a by (rule Suc.IH)
  then show ?case using none ys by simp
qed

lemma findEnd_exists:
  assumes "markerLength L (drop p ys) = Some e"
  shows "findEnd L ys \<noteq> None"
proof -
  from first_position[of "\<lambda>q. markerLength L (drop q ys) \<noteq> None" p] assms
  obtain q where "markerLength L (drop q ys) \<noteq> None" "\<forall>r<q. markerLength L (drop r ys) = None"
    by auto
  then show ?thesis using findEnd_SomeI[of L q ys] by auto
qed

lemma block_parts:
  assumes b: "blockLength Ls Le xs = Some n"
  shows "\<exists>s i e. take n xs = s @ i @ e \<and> n \<le> length xs \<and>
           isMarkerText Ls s \<and> isMarkerText Le e \<and>
           markerLength Ls xs = Some (length s) \<and>
           markerLength Le (drop (length s + length i) xs) = Some (length e) \<and>
           (\<forall>q<length i. markerLength Le (drop (length s + q) xs) = None)"
proof -
  from b obtain ns m where ns: "markerLength Ls xs = Some ns"
    and m: "findEnd Le (drop ns xs) = Some m" and n: "n = ns + m"
    by (auto simp: blockLength_def split: option.splits)
  from findEnd_SomeD[OF m] obtain p ne where pe: "m = p + ne"
    "markerLength Le (drop p (drop ns xs)) = Some ne" "p < length (drop ns xs)"
    "\<forall>q<p. markerLength Le (drop q (drop ns xs)) = None" by blast
  from markerLength_D[OF ns] have l1: "ns \<le> length xs" and m1: "isMarkerText Ls (take ns xs)"
    by simp_all
  from markerLength_D[OF pe(2)] have l2: "ne \<le> length (drop p (drop ns xs))"
    and m2: "isMarkerText Le (take ne (drop p (drop ns xs)))" by simp_all
  define s where "s = take ns xs"
  define i where "i = take p (drop ns xs)"
  define e where "e = take ne (drop p (drop ns xs))"
  have ls: "length s = ns" using l1 by (simp add: s_def)
  have li: "length i = p" using pe(3) by (simp add: i_def)
  have le: "length e = ne" using l2 by (simp add: e_def)
  have "take n xs = take ns xs @ take m (drop ns xs)" unfolding n by (rule take_add)
  also have "take m (drop ns xs) = take p (drop ns xs) @ take ne (drop p (drop ns xs))"
    unfolding pe(1) by (rule take_add)
  finally have t: "take n xs = s @ i @ e" by (simp add: s_def i_def e_def)
  have nl: "n \<le> length xs" using l1 l2 pe(3) n pe(1) by simp
  have d: "drop (length s + q) xs = drop q (drop ns xs)" for q
    by (simp add: ls add.commute)
  have c1: "markerLength Ls xs = Some (length s)" using ns ls by simp
  have c2: "markerLength Le (drop (length s + length i) xs) = Some (length e)"
    unfolding d li le by (rule pe(2))
  have c3: "\<forall>q<length i. markerLength Le (drop (length s + q) xs) = None"
    unfolding d li by (rule pe(4))
  have c4: "isMarkerText Ls s" using m1 by (simp add: s_def)
  have c5: "isMarkerText Le e" using m2 by (simp add: e_def)
  from t nl c4 c5 c1 c2 c3 show ?thesis by blast
qed

lemma blockLength_I:
  assumes ns: "\<exists>c\<in>set Ls. \<not> isSpace c" and ne: "\<exists>c\<in>set Le. \<not> isSpace c"
    and s: "isMarkerText Ls s" and e: "isMarkerText Le e"
  shows "blockLength Ls Le (s @ i @ e @ r) \<noteq> None"
proof -
  have a: "markerLength Ls (s @ i @ e @ r) = Some (length s)"
    by (rule markerLength_append[OF ns s])
  have "markerLength Le (drop (length i) (i @ e @ r)) = Some (length e)"
    using markerLength_append[OF ne e, of r] by simp
  then have "findEnd Le (i @ e @ r) \<noteq> None" by (rule findEnd_exists)
  then show ?thesis using a by (auto simp: blockLength_def)
qed

lemma blockLength_pos: "blockLength Ls Le xs = Some n \<Longrightarrow> 0 < n"
  by (auto simp: blockLength_def split: option.splits dest: markerLength_pos)

lemma markerLength_None_text:
  assumes ns: "\<exists>c\<in>set L. \<not> isSpace c" and "markerLength L zs = None"
  shows "\<not> isMarkerText L (take m zs)"
proof
  assume h: "isMarkerText L (take m zs)"
  have "take (min m (length zs)) zs = take m zs" by (simp add: min_def)
  with h have "markerLength L zs = Some (min m (length zs))"
    using markerLength_iff[OF ns, of zs "min m (length zs)"] by simp
  with assms(2) show False by simp
qed

lemma replacer_block:
  assumes ns: "\<exists>c\<in>set Ls. \<not> isSpace c" and ne: "\<exists>c\<in>set Le. \<not> isSpace c"
    and s: "isMarkerText Ls s" and e: "isMarkerText Le e"
    and near: "\<forall>q<length i. markerLength Le (drop q (i @ e)) = None"
  shows "\<exists>e'. replacer (markerItems Ls) (markerItems Le) val (s @ i @ e) =
             Inr (s @ [newline] @ val @ [newline] @ e') \<and> isMarkerText Le e' \<and>
           ((\<forall>q<length s. markerLength Le (drop q (s @ i @ e)) = None) \<longrightarrow> e' = e)"
proof -
  let ?b = "s @ i @ e"
  have "rmatch (markerItems Ls) (drop 0 ?b) = Some (length s)"
    using markerLength_append[OF ns s, of "i @ e"] by (simp add: rmatch_markerItems_plain[OF ns])
  from matchAll_first[OF this] obtain es where ms: "matchAll (markerItems Ls) ?b = s # es"
    by auto
  have at_e: "rmatch (markerItems Le) (drop (length s + length i) ?b) = Some (length e)"
    using markerLength_append[OF ne e, of "[]"] by (simp add: rmatch_markerItems_plain[OF ne])
  from matchAll_nonempty[OF at_e] obtain q m es' where q: "q \<le> length s + length i"
    "rmatch (markerItems Le) (drop q ?b) = Some m"
    "\<forall>r<q. rmatch (markerItems Le) (drop r ?b) = None"
    "matchAll (markerItems Le) ?b = take m (drop q ?b) # es'" by auto
  define e' where "e' = take m (drop q ?b)"
  have me': "isMarkerText Le e'"
    using markerLength_D[of Le "drop q ?b" m] q(2)
    by (simp add: rmatch_markerItems_plain[OF ne] e'_def)
  have own: "e' = e" if h: "\<forall>q<length s. markerLength Le (drop q ?b) = None"
  proof -
    have "\<not> q < length s + length i"
    proof
      assume lt: "q < length s + length i"
      show False
      proof (cases "q < length s")
        case True
        with h q(2) show False by (simp add: rmatch_markerItems_plain[OF ne])
      next
        case False
        then have "drop q ?b = drop (q - length s) (i @ e)" by simp
        moreover have "q - length s < length i" using lt False by simp
        ultimately show False using near q(2)
          by (simp add: rmatch_markerItems_plain[OF ne])
      qed
    qed
    with q(1) have qe: "q = length s + length i" by simp
    with q(2) at_e have "m = length e" by simp
    with qe show ?thesis by (simp add: e'_def)
  qed
  have "replacer (markerItems Ls) (markerItems Le) val ?b =
      Inr (s @ [newline] @ val @ [newline] @ e')"
    using ms q(4) by (simp add: replacer_def e'_def)
  with me' own show ?thesis by blast
qed

section \<open>The frame of a rewrite\<close>

text \<open>
  A text starts a block when it begins with a start marker that an end marker follows.
  \<open>blocksReplaced key sm em val doc out\<close>: \<open>out\<close> is \<open>doc\<close> with every character that
  starts no block kept, and every block, from its start marker \<open>s\<close> through the nearest
  end marker \<open>e\<close>, replaced by \<open>s\<close>, a line break, \<open>val\<close>, a line break and an end
  marker \<open>e'\<close>; \<open>e'\<close> is \<open>e\<close> itself unless an end marker begins inside \<open>s\<close>.
\<close>

definition startsBlock :: "string \<Rightarrow> string \<Rightarrow> string \<Rightarrow> string \<Rightarrow> bool" where
  "startsBlock key sm em xs \<longleftrightarrow>
     (\<exists>s i e r. xs = s @ i @ e @ r \<and> isMarker key sm s \<and> isMarker key em e)"

inductive blocksReplaced ::
  "string \<Rightarrow> string \<Rightarrow> string \<Rightarrow> string \<Rightarrow> string \<Rightarrow> string \<Rightarrow> bool"
  for key sm em val where
  Done: "blocksReplaced key sm em val [] []"
| Keep: "\<not> startsBlock key sm em (c # t) \<Longrightarrow> blocksReplaced key sm em val t t' \<Longrightarrow>
     blocksReplaced key sm em val (c # t) (c # t')"
| Block: "isMarker key sm s \<Longrightarrow> isMarker key em e \<Longrightarrow>
     (\<forall>q<length i. \<forall>m. \<not> isMarker key em (take m (drop q (i @ e @ t)))) \<Longrightarrow>
     isMarker key em e' \<Longrightarrow>
     ((\<forall>q<length s. \<forall>m. \<not> isMarker key em (take m (drop q (s @ i @ e)))) \<longrightarrow> e' = e) \<Longrightarrow>
     blocksReplaced key sm em val t t' \<Longrightarrow>
     blocksReplaced key sm em val (s @ i @ e @ t) (s @ [newline] @ val @ [newline] @ e' @ t')"

lemma markerLength_append_Some:
  assumes ns: "\<exists>c\<in>set L. \<not> isSpace c" and m: "markerLength L zs = Some m"
  shows "markerLength L (zs @ r) = Some m"
proof -
  from markerLength_D[OF m] have "m \<le> length zs" by simp
  then show ?thesis using markerLength_cong[OF ns m, of "zs @ r"] by simp
qed

lemma replaceAll_blocksReplaced:
  assumes "replaceAll (blockRegex key sm em)
             (replacer (markerRegex key sm) (markerRegex key em) val) xs = Inr out"
  shows "blocksReplaced key sm em val xs out"
  using assms
proof (induction xs arbitrary: out rule: length_induct)
  case (1 xs)
  let ?Ls = "key @ '':'' @ sm" and ?Le = "key @ '':'' @ em"
  let ?f = "replacer (markerRegex key sm) (markerRegex key em) val"
  note ns = marker_nonspace[of key sm] and ne = marker_nonspace[of key em]
  show ?case
  proof (cases "blockLength ?Ls ?Le xs")
    case None
    then have rm: "rmatch (blockRegex key sm em) xs = None" by (simp only: rmatch_blockRegex)
    show ?thesis
    proof (cases xs)
      case Nil
      with rm "1.prems" have "out = []" by (simp add: replaceAll_Nil)
      with Nil show ?thesis by (simp add: blocksReplaced.Done)
    next
      case (Cons c t)
      from "1.prems" rm Cons obtain z where z: "replaceAll (blockRegex key sm em) ?f t = Inr z"
        and out: "out = c # z"
        by (auto simp: replaceAll_skip split: sum.splits)
      have "blocksReplaced key sm em val t z"
        using "1.IH" z Cons by simp
      moreover have "\<not> startsBlock key sm em (c # t)"
      proof
        assume "startsBlock key sm em (c # t)"
        then obtain s i e r where "c # t = s @ i @ e @ r" "isMarkerText ?Ls s" "isMarkerText ?Le e"
          by (auto simp: startsBlock_def isMarker_def)
        then have "blockLength ?Ls ?Le xs \<noteq> None"
          using blockLength_I[OF ns ne, of s e i r] Cons by simp
        with None show False by simp
      qed
      ultimately show ?thesis unfolding Cons out by (rule blocksReplaced.Keep[rotated])
    qed
  next
    case (Some n)
    then have rm: "rmatch (blockRegex key sm em) xs = Some n" by (simp only: rmatch_blockRegex)
    from block_parts[OF Some] obtain s i e where p: "take n xs = s @ i @ e" "n \<le> length xs"
      "isMarkerText ?Ls s" "isMarkerText ?Le e"
      "\<forall>q<length i. markerLength ?Le (drop (length s + q) xs) = None" by blast
    define t where "t = drop n xs"
    have xs: "xs = s @ i @ e @ t" using p(1) append_take_drop_id[of n xs] by (simp add: t_def)
    have pos: "0 < n" using Some by (rule blockLength_pos)
    have near_full: "\<forall>q<length i. markerLength ?Le (drop q (i @ e @ t)) = None"
      using p(5) by (simp add: xs)
    have near: "\<forall>q<length i. markerLength ?Le (drop q (i @ e)) = None"
    proof (intro allI impI)
      fix q assume q: "q < length i"
      show "markerLength ?Le (drop q (i @ e)) = None"
      proof (rule ccontr)
        assume "markerLength ?Le (drop q (i @ e)) \<noteq> None"
        then obtain m where "markerLength ?Le (drop q (i @ e)) = Some m" by auto
        from markerLength_append_Some[OF ne this, of t] q near_full show False by simp
      qed
    qed
    from replacer_block[OF ns ne p(3,4) near, of val] obtain e' where
      r: "?f (s @ i @ e) = Inr (s @ [newline] @ val @ [newline] @ e')"
      and me': "isMarkerText ?Le e'"
      and own: "(\<forall>q<length s. markerLength ?Le (drop q (s @ i @ e)) = None) \<longrightarrow> e' = e"
      unfolding markerRegex_def by blast
    from "1.prems" obtain z where z: "replaceAll (blockRegex key sm em) ?f t = Inr z"
      and out: "out = s @ [newline] @ val @ [newline] @ e' @ z"
      unfolding replaceAll_match[OF rm pos p(2)] p(1) r t_def[symmetric]
      by (auto split: sum.splits)
    have "length t < length xs" using pos p(2) by (simp add: t_def)
    then have ih: "blocksReplaced key sm em val t z" using "1.IH" z by simp
    have c3: "\<forall>q<length i. \<forall>m. \<not> isMarker key em (take m (drop q (i @ e @ t)))"
    proof (intro allI impI)
      fix q m assume "q < length i"
      then have "markerLength ?Le (drop q (i @ e @ t)) = None" using near_full by blast
      from markerLength_None_text[OF ne this]
      show "\<not> isMarker key em (take m (drop q (i @ e @ t)))" unfolding isMarker_def .
    qed
    have c5: "(\<forall>q<length s. \<forall>m. \<not> isMarker key em (take m (drop q (s @ i @ e)))) \<longrightarrow> e' = e"
    proof
      assume h: "\<forall>q<length s. \<forall>m. \<not> isMarker key em (take m (drop q (s @ i @ e)))"
      have "\<forall>q<length s. markerLength ?Le (drop q (s @ i @ e)) = None"
      proof (intro allI impI)
        fix q assume q: "q < length s"
        show "markerLength ?Le (drop q (s @ i @ e)) = None"
        proof (rule ccontr)
          assume "markerLength ?Le (drop q (s @ i @ e)) \<noteq> None"
          then obtain m where "markerLength ?Le (drop q (s @ i @ e)) = Some m" by auto
          from markerLength_D[OF this] have "isMarker key em (take m (drop q (s @ i @ e)))"
            unfolding isMarker_def by simp
          with h q show False by blast
        qed
      qed
      with own show "e' = e" by simp
    qed
    have "blocksReplaced key sm em val (s @ i @ e @ t)
            (s @ [newline] @ val @ [newline] @ e' @ z)"
      using p(3,4) c3 me' c5 ih
      unfolding isMarker_def[symmetric]
      by (rule blocksReplaced.Block)
    then show ?thesis unfolding xs out .
  qed
qed

text \<open>
  \<open>rewritten opts kvs c c'\<close>: \<open>c'\<close> comes from \<open>c\<close> by one replacement of blocks per
  entry with a value, in the order of the entries.
\<close>

inductive rewritten :: "options \<Rightarrow> (string \<times> jsval) list \<Rightarrow> string \<Rightarrow> string \<Rightarrow> bool"
  for opts where
  Finished: "rewritten opts [] c c"
| Skipped: "isNullish v \<Longrightarrow> rewritten opts kvs c c' \<Longrightarrow> rewritten opts ((key, v) # kvs) c c'"
| Replaced: "\<not> isNullish v \<Longrightarrow>
     blocksReplaced key (startMarker opts) (endMarker opts) (render opts v) c c1 \<Longrightarrow>
     rewritten opts kvs c1 c' \<Longrightarrow> rewritten opts ((key, v) # kvs) c c'"

lemma rewriteKey_blocksReplaced:
  assumes "rewriteKey opts key v c = Inr c1"
  shows "blocksReplaced key (startMarker opts) (endMarker opts) (render opts v) c c1"
  using assms
  by (auto simp: rewriteKey_eq Let_def split: if_splits intro: replaceAll_blocksReplaced)

lemma rewriteLoop_rewritten:
  "rewriteLoop opts kvs c = Inr c' \<Longrightarrow> rewritten opts kvs c c'"
proof (induction kvs arbitrary: c)
  case Nil
  then show ?case by (simp add: rewritten.Finished)
next
  case (Cons kv kvs)
  obtain key v where kv: "kv = (key, v)" by (cases kv)
  show ?case
  proof (cases "isNullish v")
    case True
    with Cons.prems kv have "rewriteLoop opts kvs c = Inr c'" by (simp split: if_splits)
    from Cons.IH[OF this] True show ?thesis unfolding kv by (rule rewritten.Skipped[rotated])
  next
    case False
    with Cons.prems kv obtain c1 where k: "rewriteKey opts key v c = Inr c1"
      and l: "rewriteLoop opts kvs c1 = Inr c'"
      by (auto split: if_splits sum.splits)
    from False rewriteKey_blocksReplaced[OF k] Cons.IH[OF l]
    show ?thesis unfolding kv by (rule rewritten.Replaced)
  qed
qed

text \<open>The HTML entity of a character.\<close>

fun entity :: "char \<Rightarrow> string" where
  "entity c =
     (if c = CHR ''&'' then ''&amp;''
      else if c = CHR ''<'' then ''&lt;''
      else if c = CHR ''>'' then ''&gt;''
      else if c = dquote then ''&quot;''
      else if c = squote then ''&#039;''
      else [c])"

lemma replaceChar_simps [simp]:
  "replaceChar a s [] = []"
  "replaceChar a s (c # u) = (if c = a then s else [c]) @ replaceChar a s u"
  "replaceChar a s (u @ w) = replaceChar a s u @ replaceChar a s w"
  by (simp_all add: replaceChar_concat)

lemma escapeHtml_Cons: "escapeHtml (c # u) = entity c @ escapeHtml u"
  by (simp add: escapeHtml_def)

lemma escapeHtml_entities: "escapeHtml u = concat (map entity u)"
proof (induction u)
  case Nil
  show ?case by (simp add: escapeHtml_def)
next
  case (Cons c u)
  then show ?case by (simp only: escapeHtml_Cons list.map concat.simps)
qed

lemma escapeHtml_no_raw:
  "ch \<in> set (escapeHtml u) \<Longrightarrow>
     ch \<noteq> CHR ''<'' \<and> ch \<noteq> CHR ''>'' \<and> ch \<noteq> dquote \<and> ch \<noteq> squote"
  unfolding escapeHtml_entities by (induction u) (auto split: if_splits)

lemma blocksReplaced_contains:
  assumes "blocksReplaced key sm em val c c'" and "startsBlock key sm em (drop p c)"
  shows "\<exists>a s e z. isMarker key sm s \<and> isMarker key em e \<and>
           c' = a @ s @ [newline] @ val @ [newline] @ e @ z"
  using assms
proof (induction arbitrary: p rule: blocksReplaced.induct)
  case Done
  then show ?case by (auto simp: startsBlock_def isMarker_def isMarkerText_def)
next
  case (Keep ch t t')
  from Keep.hyps(1) Keep.prems obtain p' where "p = Suc p'" by (cases p) auto
  with Keep.prems have "startsBlock key sm em (drop p' t)" by simp
  from Keep.IH[OF this] obtain a s e z where "isMarker key sm s" "isMarker key em e"
    "t' = a @ s @ [newline] @ val @ [newline] @ e @ z" by blast
  then have "isMarker key sm s \<and> isMarker key em e \<and>
      ch # t' = (ch # a) @ s @ [newline] @ val @ [newline] @ e @ z" by simp
  then show ?case by blast
next
  case (Block s e i t e' t')
  then have "isMarker key sm s \<and> isMarker key em e' \<and>
      s @ [newline] @ val @ [newline] @ e' @ t' = [] @ s @ [newline] @ val @ [newline] @ e' @ t'"
    by simp
  then show ?case by blast
qed

text \<open>
  In a call that returns, every entry with a value replaces the blocks of its key in the
  document the earlier entries left, and nothing else.
\<close>

lemma rewrite_frame:
  assumes "rewriteMdComment dec enc input (DObject kvs) opts = Inr r"
    and "toString dec input = Str c" and "c \<noteq> []"
  shows "\<exists>c'. rewritten opts kvs c c' \<and>
           r = (if preserveType opts \<and> isBuffer input then Buf (enc c') else Str c')"
  using assms
  by (auto simp: rewriteMdComment_def Let_def returnThis_def
      split: if_splits sum.splits dest: rewriteLoop_rewritten)

lemma rewrite_frame_example:
  "\<exists>c'. rewritten defaultOptions [(''version'', VStr ''1.2.3'')]
          ''# Title <!-- version:start -->0.0.0<!-- version:end --> tail'' c' \<and>
        Str (''# Title <!-- version:start -->'' @ [newline] @ ''1.2.3'' @ [newline] @
             ''<!-- version:end --> tail'') =
          (if preserveType defaultOptions \<and>
              isBuffer (Str ''# Title <!-- version:start -->0.0.0<!-- version:end --> tail'')
           then Buf (encodeAscii c') else Str c')"
proof -
  have h: "rewriteMdComment decodeAscii encodeAscii
      (Str ''# Title <!-- version:start -->0.0.0<!-- version:end --> tail'')
      (DObject [(''version'', VStr ''1.2.3'')]) defaultOptions =
      Inr (Str (''# Title <!-- version:start -->'' @ [newline] @ ''1.2.3'' @ [newline] @
             ''<!-- version:end --> tail''))"
    by code_simp
  show ?thesis
    by (rule rewrite_frame[OF h]) simp_all
qed

text \<open>What the block pattern matches, in terms of the marker texts.\<close>

lemma blockLength_iff:
  assumes ns: "\<exists>c\<in>set Ls. \<not> isSpace c" and ne: "\<exists>c\<in>set Le. \<not> isSpace c"
  shows "blockLength Ls Le xs = Some n \<longleftrightarrow>
     (\<exists>s i e. n \<le> length xs \<and> take n xs = s @ i @ e \<and>
        isMarkerText Ls s \<and> isMarkerText Le e \<and>
        (\<forall>q<length i. \<forall>m. \<not> isMarkerText Le (take m (drop q (i @ e @ drop n xs)))))"
proof
  assume b: "blockLength Ls Le xs = Some n"
  from block_parts[OF b] obtain s i e where p: "take n xs = s @ i @ e" "n \<le> length xs"
    "isMarkerText Ls s" "isMarkerText Le e"
    "\<forall>q<length i. markerLength Le (drop (length s + q) xs) = None" by blast
  have xs: "xs = s @ i @ e @ drop n xs" using p(1) append_take_drop_id[of n xs] by simp
  have "\<forall>q<length i. \<forall>m. \<not> isMarkerText Le (take m (drop q (i @ e @ drop n xs)))"
  proof (intro allI impI)
    fix q m assume "q < length i"
    then have "markerLength Le (drop (length s + q) xs) = None" using p(5) by blast
    moreover have "drop (length s + q) xs = drop q (i @ e @ drop n xs)" by (subst xs) simp
    ultimately have "markerLength Le (drop q (i @ e @ drop n xs)) = None" by simp
    from markerLength_None_text[OF ne this]
    show "\<not> isMarkerText Le (take m (drop q (i @ e @ drop n xs)))" .
  qed
  with p(1-4) show "\<exists>s i e. n \<le> length xs \<and> take n xs = s @ i @ e \<and>
        isMarkerText Ls s \<and> isMarkerText Le e \<and>
        (\<forall>q<length i. \<forall>m. \<not> isMarkerText Le (take m (drop q (i @ e @ drop n xs))))" by blast
next
  assume "\<exists>s i e. n \<le> length xs \<and> take n xs = s @ i @ e \<and>
        isMarkerText Ls s \<and> isMarkerText Le e \<and>
        (\<forall>q<length i. \<forall>m. \<not> isMarkerText Le (take m (drop q (i @ e @ drop n xs))))"
  then obtain s i e where h: "n \<le> length xs" "take n xs = s @ i @ e"
    "isMarkerText Ls s" "isMarkerText Le e"
    "\<forall>q<length i. \<forall>m. \<not> isMarkerText Le (take m (drop q (i @ e @ drop n xs)))" by blast
  define r where "r = drop n xs"
  have xs: "xs = s @ i @ e @ r" using h(2) append_take_drop_id[of n xs] by (simp add: r_def)
  have n: "n = length s + (length i + length e)"
    using h(1,2) by (metis length_take min.absorb2 length_append)
  have a: "markerLength Ls xs = Some (length s)"
    unfolding xs by (rule markerLength_append[OF ns h(3)])
  have at: "markerLength Le (drop (length i) (i @ e @ r)) = Some (length e)"
    using markerLength_append[OF ne h(4), of r] by simp
  have none: "\<forall>q<length i. markerLength Le (drop q (i @ e @ r)) = None"
  proof (intro allI impI)
    fix q assume q: "q < length i"
    show "markerLength Le (drop q (i @ e @ r)) = None"
    proof (rule ccontr)
      assume "markerLength Le (drop q (i @ e @ r)) \<noteq> None"
      then obtain m where "markerLength Le (drop q (i @ e @ r)) = Some m" by auto
      from markerLength_D[OF this] h(5) q show False by (simp add: r_def)
    qed
  qed
  have fe: "findEnd Le (i @ e @ r) = Some (length i + length e)"
    by (rule findEnd_SomeI[OF at none])
  have d: "drop (length s) xs = i @ e @ r" by (subst xs) simp
  show "blockLength Ls Le xs = Some n"
    unfolding blockLength_def a option.case d fe n by simp
qed

section \<open>Rewriting a second time\<close>

text \<open>
  A marker begins with \<open><!\<close>. In a label that does not contain \<open><!\<close>, and so in a marker
  of such a label behind its first character, no marker begins.
\<close>

fun noOpen :: "string \<Rightarrow> bool" where
  "noOpen (a # b # t) = (\<not> (a = CHR ''<'' \<and> b = CHR ''!'') \<and> noOpen (b # t))"
| "noOpen [a] = True"
| "noOpen [] = True"

lemma markerLength_open: "markerLength L xs = Some a \<Longrightarrow> prefix ''<!'' xs"
  by (auto simp: markerLength_def prefix_def split: if_splits)

lemma markerLength_head: "markerLength L xs = Some a \<Longrightarrow> \<exists>t. xs = CHR ''<'' # t"
  by (auto simp: markerLength_def prefix_def split: if_splits)

lemma not_open_None: "\<not> prefix ''<!'' xs \<Longrightarrow> markerLength L xs = None"
  using markerLength_open[of L xs] by (cases "markerLength L xs") auto

lemma isSpace_not_lt: "isSpace c \<Longrightarrow> c \<noteq> CHR ''<''"
  by (auto simp: isSpace_def)

lemma noOpen_tail: "noOpen (c # t) \<Longrightarrow> noOpen t"
  by (cases t) simp_all

lemma noOpen_append:
  assumes "noOpen L" and "r = [] \<or> hd r \<noteq> CHR ''!''" and "p < length L"
  shows "\<not> prefix ''<!'' (drop p (L @ r))"
  using assms
proof (induction L arbitrary: p)
  case Nil
  then show ?case by simp
next
  case (Cons c t)
  show ?case
  proof (cases p)
    case 0
    show ?thesis
    proof (cases t)
      case Nil
      with Cons.prems(2) 0 show ?thesis by (cases r) auto
    next
      case (Cons b t')
      with Cons.prems(1) 0 show ?thesis by auto
    qed
  next
    case (Suc k)
    with Cons.prems(3) have "k < length t" by simp
    from Cons.IH[OF noOpen_tail[OF Cons.prems(1)] Cons.prems(2) this] Suc show ?thesis by simp
  qed
qed

lemma not_lt_not_open: "xs \<noteq> [] \<Longrightarrow> hd xs \<noteq> CHR ''<'' \<Longrightarrow> \<not> prefix ''<!'' xs"
  by (cases xs) auto

lemma marker_inside:
  assumes L: "noOpen L" and m: "isMarkerText L m" and p: "0 < p" "p < length m"
  shows "\<not> prefix ''<!'' (drop p (m @ z))"
proof -
  from m obtain a b where ab: "list_all isSpace a" "list_all isSpace b"
    and m': "m = ''<!--'' @ a @ L @ b @ ''-->''" by (auto simp: isMarkerText_def)
  define pre where "pre = ''<!--'' @ a"
  define post where "post = b @ ''-->''"
  have mm: "m = pre @ L @ post" by (simp add: m' pre_def post_def)
  have pre: "pre ! i \<noteq> CHR ''<''" if "0 < i" "i < length pre" for i
  proof (cases "i < 4")
    case True
    with that(1) have "i = 1 \<or> i = 2 \<or> i = 3" by auto
    then show ?thesis by (auto simp: pre_def)
  next
    case False
    then have "pre ! i = a ! (i - 4)" by (simp add: pre_def nth_append eval_nat_numeral)
    moreover have "i - 4 < length a" using that(2) False by (simp add: pre_def)
    ultimately show ?thesis using ab(1) isSpace_not_lt by (auto simp: list_all_length)
  qed
  have post: "CHR ''<'' \<notin> set post"
    using ab(2) isSpace_not_lt by (auto simp: post_def list_all_iff)
  have hp: "post @ z = [] \<or> hd (post @ z) \<noteq> CHR ''!''"
  proof (cases b)
    case Nil
    then show ?thesis by (simp add: post_def)
  next
    case (Cons c b')
    with ab(2) have "isSpace c" by simp
    then have "c \<noteq> CHR ''!''" by (auto simp: isSpace_def)
    with Cons show ?thesis by (simp add: post_def)
  qed
  show ?thesis
  proof (cases "p < length pre")
    case True
    have "drop p (m @ z) = pre ! p # drop (Suc p) (pre @ L @ post @ z)"
      unfolding mm using True by (simp add: Cons_nth_drop_Suc[symmetric] nth_append)
    with pre[OF p(1) True] show ?thesis by auto
  next
    case False
    define q where "q = p - length pre"
    have pq: "p = length pre + q" using False by (simp add: q_def)
    have d: "drop p (m @ z) = drop q (L @ post @ z)" unfolding mm pq by simp
    show ?thesis
    proof (cases "q < length L")
      case True
      from noOpen_append[OF L hp True] show ?thesis unfolding d .
    next
      case False
      define j where "j = q - length L"
      have qj: "q = length L + j" using False by (simp add: j_def)
      have jl: "j < length post" using p(2) unfolding mm pq qj by simp
      have d2: "drop q (L @ post @ z) = post ! j # drop (Suc j) (post @ z)"
        unfolding qj using jl by (simp add: Cons_nth_drop_Suc[symmetric] nth_append)
      have "post ! j \<noteq> CHR ''<''" using post jl by (metis nth_mem)
      then show ?thesis unfolding d d2 by auto
    qed
  qed
qed

lemma marker_inside_None:
  assumes "noOpen L" and "isMarkerText L m" and "0 < p" and "p < length m"
  shows "markerLength Q (drop p (m @ z)) = None"
  by (rule not_open_None[OF marker_inside[OF assms]])

lemma markerLength_before_open:
  assumes L: "noOpen L" and m: "markerLength L (c # u @ ''<!'' @ w) = Some a"
  shows "a \<le> Suc (length u)"
proof (rule ccontr)
  assume "\<not> a \<le> Suc (length u)"
  then have gt: "Suc (length u) < a" by simp
  let ?xs = "c # u @ ''<!'' @ w"
  from markerLength_D[OF m] have la: "a \<le> length ?xs" and mt: "isMarkerText L (take a ?xs)"
    by simp_all
  have "length (take a ?xs) = a" using la by simp
  with gt have p: "Suc (length u) < length (take a ?xs)" by simp
  from marker_inside[OF L mt _ p, of "drop a ?xs"]
  have "\<not> prefix ''<!'' (drop (Suc (length u)) ?xs)" by simp
  then show False by simp
qed

lemma head_marker_transfer:
  assumes L: "noOpen L" and ns: "\<exists>c\<in>set L. \<not> isSpace c"
    and m: "markerLength L (c # u @ ''<!'' @ w') = Some a"
  shows "markerLength L (c # u @ ''<!'' @ w) = Some a \<and> a \<le> Suc (length u)"
proof -
  from markerLength_before_open[OF L m] have a: "a \<le> Suc (length u)" .
  then have "take a (c # u @ ''<!'' @ w) = take a (c # u @ ''<!'' @ w')"
    by (cases a) simp_all
  moreover have "a \<le> length (c # u @ ''<!'' @ w)" using a by simp
  ultimately have "markerLength L (c # u @ ''<!'' @ w) = Some a"
    using markerLength_cong[OF ns m] by blast
  with a show ?thesis by simp
qed

lemma findEnd_append:
  assumes "findEnd L z \<noteq> None"
  shows "findEnd L (w @ z) \<noteq> None"
proof -
  from assms obtain m where "findEnd L z = Some m" by auto
  from findEnd_SomeD[OF this] obtain p e where "markerLength L (drop p z) = Some e" by blast
  then have "markerLength L (drop (length w + p) (w @ z)) = Some e" by simp
  then show ?thesis by (rule findEnd_exists)
qed

lemma findEnd_Cons_neq: "findEnd L t \<noteq> None \<Longrightarrow> findEnd L (c # t) \<noteq> None"
  using findEnd_append[of L t "[c]"] by simp

lemma blockLength_findEnd:
  assumes "blockLength Ls Le z \<noteq> None"
  shows "findEnd Le z \<noteq> None"
proof -
  from assms obtain n where "blockLength Ls Le z = Some n" by auto
  from block_parts[OF this] obtain s i e :: string where
    "markerLength Le (drop (length s + length i) z) = Some (length e)" by blast
  then show ?thesis by (rule findEnd_exists)
qed

lemma blockLength_Nil [simp]: "blockLength Ls Le [] = None"
  by (simp add: blockLength_def)

lemma blockLength_open: "blockLength Ls Le xs = Some n \<Longrightarrow> prefix ''<!'' xs"
  by (auto simp: blockLength_def split: option.splits dest: markerLength_open)

text \<open>
  Two labels share a marker when a marker of one begins with a marker of the other: then,
  and only then, a text can begin with a marker of both.
\<close>

definition shared :: "string \<Rightarrow> string \<Rightarrow> bool" where
  "shared L L' \<longleftrightarrow>
     (\<exists>s s'. isMarkerText L s \<and> isMarkerText L' s' \<and> (prefix s s' \<or> prefix s' s))"

lemma shared_sym: "shared L L' \<Longrightarrow> shared L' L"
  by (auto simp: shared_def)

lemma not_shared_None:
  assumes "\<not> shared L L'" and "markerLength L xs = Some a"
  shows "markerLength L' xs = None"
proof (rule ccontr)
  assume "markerLength L' xs \<noteq> None"
  then obtain a' where a': "markerLength L' xs = Some a'" by auto
  from markerLength_D[OF assms(2)] markerLength_D[OF a']
  have "isMarkerText L (take a xs)" "isMarkerText L' (take a' xs)" by simp_all
  moreover have "prefix (take a xs) (take a' xs) \<or> prefix (take a' xs) (take a xs)"
    using take_is_prefix prefix_same_cases by blast
  ultimately show False using assms(1) by (auto simp: shared_def)
qed

lemma shared_iff:
  assumes ns: "\<exists>c\<in>set L. \<not> isSpace c" and ns': "\<exists>c\<in>set L'. \<not> isSpace c"
  shows "shared L L' \<longleftrightarrow> (\<exists>xs. markerLength L xs \<noteq> None \<and> markerLength L' xs \<noteq> None)"
proof
  assume "shared L L'"
  then obtain s s' where h: "isMarkerText L s" "isMarkerText L' s'" "prefix s s' \<or> prefix s' s"
    by (auto simp: shared_def)
  from h(3) show "\<exists>xs. markerLength L xs \<noteq> None \<and> markerLength L' xs \<noteq> None"
  proof
    assume "prefix s s'"
    then obtain r where "s' = s @ r" by (auto simp: prefix_def)
    with markerLength_append[OF ns h(1), of r] markerLength_append[OF ns' h(2), of "[]"]
    show ?thesis by auto
  next
    assume "prefix s' s"
    then obtain r where "s = s' @ r" by (auto simp: prefix_def)
    with markerLength_append[OF ns' h(2), of r] markerLength_append[OF ns h(1), of "[]"]
    show ?thesis by auto
  qed
next
  assume "\<exists>xs. markerLength L xs \<noteq> None \<and> markerLength L' xs \<noteq> None"
  then obtain xs a where "markerLength L xs = Some a" "markerLength L' xs \<noteq> None" by auto
  with not_shared_None[of L L' xs a] show "shared L L'" by auto
qed

text \<open>
  The replacement of the blocks of one key, over the labels of its two markers, and the
  text \<open>rtext s val e\<close> that takes the place of a block.
\<close>

definition blockItems :: "string \<Rightarrow> string \<Rightarrow> regex" where
  "blockItems Ls Le = markerItems Ls @ Item [Space, NonSpace] (Star False) # markerItems Le"

definition rewriteBlocks :: "string \<Rightarrow> string \<Rightarrow> string \<Rightarrow> string \<Rightarrow> error + string" where
  "rewriteBlocks Ls Le val xs =
     replaceAll (blockItems Ls Le) (replacer (markerItems Ls) (markerItems Le) val) xs"

definition rtext :: "string \<Rightarrow> string \<Rightarrow> string \<Rightarrow> string" where
  "rtext s val e = s @ [newline] @ val @ [newline] @ e"

definition clean :: "string \<Rightarrow> string \<Rightarrow> bool" where
  \<comment> \<open>no marker of the label begins in the text\<close>
  "clean L val \<longleftrightarrow> (\<forall>p. markerLength L (drop p val) = None)"

lemma blockRegex_blockItems:
  "blockRegex key sm em = blockItems (key @ '':'' @ sm) (key @ '':'' @ em)"
  by (simp add: blockRegex_def markerRegex_def blockItems_def)

lemma rmatch_blockItems:
  assumes ns: "\<exists>c\<in>set Ls. \<not> isSpace c" and ne: "\<exists>c\<in>set Le. \<not> isSpace c"
  shows "rmatch (blockItems Ls Le) xs = blockLength Ls Le xs"
  unfolding blockItems_def blockLength_def
  using rmatch_markerItems[OF ns, of "Item [Space, NonSpace] (Star False) # markerItems Le" xs,
      unfolded rmatch_lazy_marker[OF ne]] .

lemma rb_Nil:
  assumes ns: "\<exists>c\<in>set Ls. \<not> isSpace c" and ne: "\<exists>c\<in>set Le. \<not> isSpace c"
  shows "rewriteBlocks Ls Le val [] = Inr []"
  unfolding rewriteBlocks_def
  by (rule replaceAll_Nil) (simp add: rmatch_blockItems[OF ns ne])

lemma rb_skip:
  assumes ns: "\<exists>c\<in>set Ls. \<not> isSpace c" and ne: "\<exists>c\<in>set Le. \<not> isSpace c"
    and b: "blockLength Ls Le (c # t) = None"
  shows "rewriteBlocks Ls Le val (c # t) =
     (case rewriteBlocks Ls Le val t of Inl e \<Rightarrow> Inl e | Inr z \<Rightarrow> Inr (c # z))"
  unfolding rewriteBlocks_def
  by (rule replaceAll_skip) (simp add: rmatch_blockItems[OF ns ne] b)

lemma rb_block_any:
  assumes ns: "\<exists>c\<in>set Ls. \<not> isSpace c" and ne: "\<exists>c\<in>set Le. \<not> isSpace c"
    and b: "blockLength Ls Le x = Some n"
  shows "\<exists>s i e e'. x = s @ i @ e @ drop n x \<and> n = length (s @ i @ e) \<and> 0 < n \<and> n \<le> length x \<and>
      isMarkerText Ls s \<and> isMarkerText Le e \<and> isMarkerText Le e' \<and>
      (\<forall>q<length i. markerLength Le (drop q (i @ e @ drop n x)) = None) \<and>
      ((\<forall>q<length s. markerLength Le (drop q (s @ i @ e)) = None) \<longrightarrow> e' = e) \<and>
      rewriteBlocks Ls Le val x =
        (case rewriteBlocks Ls Le val (drop n x) of
           Inl err \<Rightarrow> Inl err
         | Inr z \<Rightarrow> Inr (rtext s val e' @ z))"
proof -
  let ?f = "replacer (markerItems Ls) (markerItems Le) val"
  have rm: "rmatch (blockItems Ls Le) x = Some n" using b by (simp add: rmatch_blockItems[OF ns ne])
  from block_parts[OF b] obtain s i e where p: "take n x = s @ i @ e" "n \<le> length x"
    "isMarkerText Ls s" "isMarkerText Le e"
    "\<forall>q<length i. markerLength Le (drop (length s + q) x) = None" by blast
  define t where "t = drop n x"
  have x: "x = s @ i @ e @ t" using p(1) append_take_drop_id[of n x] by (simp add: t_def)
  have n: "n = length (s @ i @ e)" using p(1,2) by (metis length_take min.absorb2)
  have pos: "0 < n" using b by (rule blockLength_pos)
  have near_full: "\<forall>q<length i. markerLength Le (drop q (i @ e @ t)) = None"
  proof (intro allI impI)
    fix q assume "q < length i"
    then have "markerLength Le (drop (length s + q) x) = None" using p(5) by blast
    moreover have "drop (length s + q) x = drop q (i @ e @ t)" by (subst x) simp
    ultimately show "markerLength Le (drop q (i @ e @ t)) = None" by simp
  qed
  have near: "\<forall>q<length i. markerLength Le (drop q (i @ e)) = None"
  proof (intro allI impI)
    fix q assume q: "q < length i"
    show "markerLength Le (drop q (i @ e)) = None"
    proof (rule ccontr)
      assume "markerLength Le (drop q (i @ e)) \<noteq> None"
      then obtain m where "markerLength Le (drop q (i @ e)) = Some m" by auto
      from markerLength_append_Some[OF ne this, of t] q near_full show False by simp
    qed
  qed
  from replacer_block[OF ns ne p(3,4) near, of val] obtain e' where
    r: "?f (s @ i @ e) = Inr (s @ [newline] @ val @ [newline] @ e')"
    and me': "isMarkerText Le e'"
    and own: "(\<forall>q<length s. markerLength Le (drop q (s @ i @ e)) = None) \<longrightarrow> e' = e"
    by blast
  have rw: "rewriteBlocks Ls Le val x =
        (case rewriteBlocks Ls Le val (drop n x) of
           Inl err \<Rightarrow> Inl err
         | Inr z \<Rightarrow> Inr (rtext s val e' @ z))"
    unfolding rewriteBlocks_def replaceAll_match[OF rm pos p(2)] p(1) r rtext_def
    by (simp split: sum.splits)
  have x': "x = s @ i @ e @ drop n x" using x by (simp add: t_def)
  from x' n pos p(2,3,4) me' near_full[unfolded t_def] own rw show ?thesis by blast
qed

lemma replacer_same:
  assumes ns: "\<exists>c\<in>set L. \<not> isSpace c" and s: "isMarkerText L s"
  shows "replacer (markerItems L) (markerItems L) val (s @ r) = Inr (rtext s val s)"
proof -
  have "rmatch (markerItems L) (drop 0 (s @ r)) = Some (length s)"
    using markerLength_append[OF ns s, of r] by (simp add: rmatch_markerItems_plain[OF ns])
  from matchAll_first[OF this] obtain es where "matchAll (markerItems L) (s @ r) = s # es"
    by auto
  then show ?thesis by (simp add: replacer_def rtext_def)
qed

text \<open>
  The end marker the callback writes: the block's own, or, when the two labels are the
  same, the start marker, which the end pattern finds first.
\<close>

lemma rb_block:
  assumes lts: "noOpen Ls" and ns: "\<exists>c\<in>set Ls. \<not> isSpace c"
    and ne: "\<exists>c\<in>set Le. \<not> isSpace c"
    and own: "Ls = Le \<or> \<not> shared Ls Le"
    and b: "blockLength Ls Le x = Some n"
  shows "\<exists>s i e. x = s @ i @ e @ drop n x \<and> n = length (s @ i @ e) \<and> 0 < n \<and> n \<le> length x \<and>
      isMarkerText Ls s \<and> isMarkerText Le e \<and>
      (\<forall>q<length i. markerLength Le (drop q (i @ e @ drop n x)) = None) \<and>
      rewriteBlocks Ls Le val x =
        (case rewriteBlocks Ls Le val (drop n x) of
           Inl err \<Rightarrow> Inl err
         | Inr z \<Rightarrow> Inr (rtext s val (if Ls = Le then s else e) @ z))"
proof -
  let ?f = "replacer (markerItems Ls) (markerItems Le) val"
  have rm: "rmatch (blockItems Ls Le) x = Some n" using b by (simp add: rmatch_blockItems[OF ns ne])
  from block_parts[OF b] obtain s i e where p: "take n x = s @ i @ e" "n \<le> length x"
    "isMarkerText Ls s" "isMarkerText Le e"
    "\<forall>q<length i. markerLength Le (drop (length s + q) x) = None" by blast
  define t where "t = drop n x"
  have x: "x = s @ i @ e @ t" using p(1) append_take_drop_id[of n x] by (simp add: t_def)
  have n: "n = length (s @ i @ e)" using p(1,2) by (metis length_take min.absorb2)
  have pos: "0 < n" using b by (rule blockLength_pos)
  have near_full: "\<forall>q<length i. markerLength Le (drop q (i @ e @ t)) = None"
  proof (intro allI impI)
    fix q assume "q < length i"
    then have "markerLength Le (drop (length s + q) x) = None" using p(5) by blast
    moreover have "drop (length s + q) x = drop q (i @ e @ t)" by (subst x) simp
    ultimately show "markerLength Le (drop q (i @ e @ t)) = None" by simp
  qed
  have near: "\<forall>q<length i. markerLength Le (drop q (i @ e)) = None"
  proof (intro allI impI)
    fix q assume q: "q < length i"
    show "markerLength Le (drop q (i @ e)) = None"
    proof (rule ccontr)
      assume "markerLength Le (drop q (i @ e)) \<noteq> None"
      then obtain m where "markerLength Le (drop q (i @ e)) = Some m" by auto
      from markerLength_append_Some[OF ne this, of t] q near_full show False by simp
    qed
  qed
  have r: "?f (s @ i @ e) = Inr (rtext s val (if Ls = Le then s else e))"
  proof (cases "Ls = Le")
    case True
    with replacer_same[OF ns p(3), of val "i @ e"] show ?thesis by simp
  next
    case False
    with own have nsh: "\<not> shared Ls Le" by simp
    from replacer_block[OF ns ne p(3,4) near, of val] obtain e' where
      r: "?f (s @ i @ e) = Inr (s @ [newline] @ val @ [newline] @ e')"
      and own': "(\<forall>q<length s. markerLength Le (drop q (s @ i @ e)) = None) \<longrightarrow> e' = e"
      by blast
    have "\<forall>q<length s. markerLength Le (drop q (s @ i @ e)) = None"
    proof (intro allI impI)
      fix q assume q: "q < length s"
      show "markerLength Le (drop q (s @ i @ e)) = None"
      proof (cases "q = 0")
        case True
        have "markerLength Ls (s @ i @ e) = Some (length s)"
          by (rule markerLength_append[OF ns p(3)])
        from not_shared_None[OF nsh this] True show ?thesis by simp
      next
        case False
        then have "0 < q" by simp
        from marker_inside_None[OF lts p(3) this q] show ?thesis .
      qed
    qed
    with own' have "e' = e" by simp
    with r False show ?thesis by (simp add: rtext_def)
  qed
  have rw: "rewriteBlocks Ls Le val x =
        (case rewriteBlocks Ls Le val (drop n x) of
           Inl err \<Rightarrow> Inl err
         | Inr z \<Rightarrow> Inr (rtext s val (if Ls = Le then s else e) @ z))"
    unfolding rewriteBlocks_def replaceAll_match[OF rm pos p(2)] p(1) r
    by (simp split: sum.splits)
  have x': "x = s @ i @ e @ drop n x" using x by (simp add: t_def)
  from x' n pos p(2,3,4) near_full[unfolded t_def] rw show ?thesis by blast
qed

lemma markerText_last:
  assumes "isMarkerText L m"
  shows "m \<noteq> [] \<and> last m = CHR ''>''"
  using assms by (auto simp: isMarkerText_def)

text \<open>No marker begins in the line breaks and the inserted text of a rewritten block.\<close>

lemma interior_clean:
  assumes lt: "noOpen L" and ns: "\<exists>c\<in>set L. \<not> isSpace c" and cl: "clean L val"
    and q: "q < length ([newline] @ val @ [newline])"
  shows "markerLength L (drop q (([newline] @ val @ [newline]) @ ''<!'' @ z)) = None"
proof (cases q)
  case 0
  show ?thesis unfolding 0 by (rule not_open_None) simp
next
  case (Suc k)
  have d: "drop q (([newline] @ val @ [newline]) @ ''<!'' @ z) =
      drop k val @ newline # ''<!'' @ z" using Suc q by simp
  show ?thesis
  proof (rule ccontr)
    assume "markerLength L (drop q (([newline] @ val @ [newline]) @ ''<!'' @ z)) \<noteq> None"
    then obtain a where a: "markerLength L (drop k val @ newline # ''<!'' @ z) = Some a"
      unfolding d by auto
    show False
    proof (cases "drop k val")
      case Nil
      with a markerLength_head[of L "newline # ''<!'' @ z" a] show False by simp
    next
      case (Cons c u)
      have a': "markerLength L (c # (u @ [newline]) @ ''<!'' @ z) = Some a"
        using a Cons by simp
      from markerLength_before_open[OF lt a'] have le: "a \<le> Suc (Suc (length u))" by simp
      from markerLength_D[OF a'] have mt: "isMarkerText L (take a (c # (u @ [newline]) @ ''<!'' @ z))"
        by simp
      have "a \<noteq> Suc (Suc (length u))"
      proof
        assume e: "a = Suc (Suc (length u))"
        have "take a (c # (u @ [newline]) @ ''<!'' @ z) = (c # u) @ [newline]"
          unfolding e by simp
        with markerText_last[OF mt] show False by simp
      qed
      with le have le': "a \<le> length (c # u)" by simp
      then have "take a (c # u) = take a (c # (u @ [newline]) @ ''<!'' @ z)"
        by (cases a) simp_all
      from markerLength_cong[OF ns a' this le'] have "markerLength L (drop k val) = Some a"
        using Cons by simp
      with cl show False by (simp add: clean_def)
    qed
  qed
qed

lemma markerText_open: "isMarkerText L m \<Longrightarrow> \<exists>m'. m = ''<!'' @ m'"
  by (auto simp: isMarkerText_def)

text \<open>The only places of a rewritten block where a marker can begin.\<close>

lemma rtext_marker_positions:
  assumes lts: "noOpen Ls" and lte: "noOpen Le"
    and s: "isMarkerText Ls s" and e: "isMarkerText Le e"
    and lt: "noOpen L" and ns: "\<exists>c\<in>set L. \<not> isSpace c" and cl: "clean L val"
    and p: "p < length (rtext s val e)"
    and m: "markerLength L (drop p (rtext s val e @ rest)) \<noteq> None"
  shows "p = 0 \<or> p = length s + length val + 2"
proof (rule ccontr)
  assume n: "\<not> (p = 0 \<or> p = length s + length val + 2)"
  let ?w = "[newline] @ val @ [newline]"
  from markerText_open[OF e] obtain e2 where e2: "e = ''<!'' @ e2" by blast
  have R: "rtext s val e @ rest = s @ ?w @ e @ rest" by (simp add: rtext_def)
  have lw: "length s + length val + 2 = length s + length ?w" by simp
  have "markerLength L (drop p (rtext s val e @ rest)) = None"
  proof (cases "p < length s")
    case True
    from n have "0 < p" by simp
    from marker_inside_None[OF lts s this True] show ?thesis unfolding R .
  next
    case False
    define j where "j = p - length s"
    have pj: "p = length s + j" using False by (simp add: j_def)
    have d: "drop p (rtext s val e @ rest) = drop j (?w @ e @ rest)" unfolding R pj by simp
    show ?thesis
    proof (cases "j < length ?w")
      case True
      have "markerLength L (drop j (?w @ e @ rest)) = None"
        using interior_clean[OF lt ns cl True, of "e2 @ rest"] by (simp add: e2)
      then show ?thesis unfolding d .
    next
      case False
      with n pj lw have gt: "length ?w < j" by simp
      define i where "i = j - length ?w"
      have ji: "j = length ?w + i" and i0: "0 < i" using gt by (simp_all add: i_def)
      have d2: "drop j (?w @ e @ rest) = drop i (e @ rest)" unfolding ji by simp
      have "i < length e" using p unfolding pj ji by (simp add: rtext_def)
      from marker_inside_None[OF lte e i0 this] show ?thesis unfolding d d2 .
    qed
  qed
  with m show False by simp
qed

lemma rtext_drop_end:
  "drop (length s + length val + 2) (rtext s val e @ rest) = e @ rest"
  by (simp add: rtext_def)

lemma rtext_length: "length (rtext s val e) = length s + length val + 2 + length e"
  by (simp add: rtext_def)

lemma blockLength_rtext:
  assumes ns: "\<exists>c\<in>set Ls. \<not> isSpace c"
    and lte: "noOpen Le" and ne: "\<exists>c\<in>set Le. \<not> isSpace c"
    and s: "isMarkerText Ls s" and e: "isMarkerText Le e" and cl: "clean Le val"
  shows "blockLength Ls Le (rtext s val e @ rest) = Some (length (rtext s val e))"
proof -
  let ?i = "[newline] @ val @ [newline]"
  from markerText_open[OF e] obtain e' where e': "e = ''<!'' @ e'" by blast
  have a: "markerLength Ls (rtext s val e @ rest) = Some (length s)"
    unfolding rtext_def using markerLength_append[OF ns s] by simp
  have d: "drop (length s) (rtext s val e @ rest) = ?i @ e @ rest" by (simp add: rtext_def)
  have "markerLength Le (drop (length ?i) (?i @ e @ rest)) = Some (length e)"
    using markerLength_append[OF ne e, of rest] by simp
  moreover have "\<forall>q<length ?i. markerLength Le (drop q (?i @ e @ rest)) = None"
    using interior_clean[OF lte ne cl, of _ "e' @ rest"] unfolding e' by simp
  ultimately have "findEnd Le (?i @ e @ rest) = Some (length ?i + length e)"
    by (rule findEnd_SomeI)
  then have fe: "findEnd Le (drop (length s) (rtext s val e @ rest)) =
      Some (length ?i + length e)" unfolding d .
  show ?thesis unfolding blockLength_def a option.case fe by (simp add: rtext_length)
qed

text \<open>A rewrite agrees with its input up to the first block.\<close>

lemma rewriteBlocks_agree:
  assumes ns: "\<exists>c\<in>set Ls. \<not> isSpace c" and ne: "\<exists>c\<in>set Le. \<not> isSpace c"
    and r: "rewriteBlocks Ls Le val x = Inr y"
  shows "y = x \<or> (\<exists>u w w'. x = u @ ''<!'' @ w \<and> y = u @ ''<!'' @ w' \<and>
           blockLength Ls Le (''<!'' @ w) \<noteq> None \<and>
           rewriteBlocks Ls Le val (''<!'' @ w) = Inr (''<!'' @ w'))"
  using r
proof (induction x arbitrary: y)
  case Nil
  then show ?case by (simp add: rb_Nil[OF ns ne])
next
  case (Cons c t)
  show ?case
  proof (cases "blockLength Ls Le (c # t)")
    case None
    from Cons.prems obtain z where z: "rewriteBlocks Ls Le val t = Inr z" and y: "y = c # z"
      unfolding rb_skip[OF ns ne None] by (auto split: sum.splits)
    from Cons.IH[OF z] show ?thesis
    proof
      assume "z = t"
      with y show ?thesis by simp
    next
      assume "\<exists>u w w'. t = u @ ''<!'' @ w \<and> z = u @ ''<!'' @ w' \<and>
           blockLength Ls Le (''<!'' @ w) \<noteq> None \<and>
           rewriteBlocks Ls Le val (''<!'' @ w) = Inr (''<!'' @ w')"
      then obtain u w w' where f: "t = u @ ''<!'' @ w" "z = u @ ''<!'' @ w'"
        "blockLength Ls Le (''<!'' @ w) \<noteq> None"
        "rewriteBlocks Ls Le val (''<!'' @ w) = Inr (''<!'' @ w')" by blast
      have "c # t = (c # u) @ ''<!'' @ w" "y = (c # u) @ ''<!'' @ w'"
        using f(1,2) y by simp_all
      with f(3,4) show ?thesis by blast
    qed
  next
    case (Some n)
    from rb_block_any[OF ns ne Some, of val] obtain s i e e' z where
      f: "isMarkerText Ls s" "c # t = s @ i @ e @ drop n (c # t)"
      and rw: "rewriteBlocks Ls Le val (c # t) =
        (case rewriteBlocks Ls Le val (drop n (c # t)) of
           Inl err \<Rightarrow> Inl err
         | Inr z \<Rightarrow> Inr (rtext s val e' @ z))" by blast
    from Cons.prems rw obtain z where y: "y = rtext s val e' @ z" by (auto split: sum.splits)
    from markerText_open[OF f(1)] obtain s' where s': "s = ''<!'' @ s'" by blast
    define r where "r = drop n (c # t)"
    have f2: "c # t = s @ i @ e @ r" unfolding r_def by (rule f(2))
    define w where "w = s' @ i @ e @ r"
    define w' where "w' = s' @ [newline] @ val @ [newline] @ e' @ z"
    have x: "c # t = [] @ ''<!'' @ w" unfolding w_def by (subst f2) (simp add: s')
    have y': "y = [] @ ''<!'' @ w'" using y s' by (simp add: rtext_def w'_def)
    have "blockLength Ls Le (''<!'' @ w) \<noteq> None" using Some x by simp
    moreover have "rewriteBlocks Ls Le val (''<!'' @ w) = Inr (''<!'' @ w')"
      using Cons.prems x y' by simp
    ultimately show ?thesis using x y' by blast
  qed
qed

definition lab :: "string \<Rightarrow> bool" where
  \<comment> \<open>a label without \<open><!\<close> that is not white space only\<close>
  "lab L \<longleftrightarrow> noOpen L \<and> (\<exists>c\<in>set L. \<not> isSpace c)"

lemma lab_lt: "lab L \<Longrightarrow> noOpen L"
  by (simp add: lab_def)

lemma lab_ns: "lab L \<Longrightarrow> \<exists>c\<in>set L. \<not> isSpace c"
  by (simp add: lab_def)

text \<open>
  A document is stable for a key when the scan of \<open>replaceAll\<close> finds every block in the
  form the callback writes.
\<close>

inductive stable :: "string \<Rightarrow> string \<Rightarrow> string \<Rightarrow> string \<Rightarrow> bool" for Ls Le val where
  Nil: "stable Ls Le val []"
| Skip: "blockLength Ls Le (c # t) = None \<Longrightarrow> stable Ls Le val t \<Longrightarrow> stable Ls Le val (c # t)"
| Block: "isMarkerText Ls s \<Longrightarrow> isMarkerText Le e \<Longrightarrow> (Ls = Le \<longrightarrow> e = s) \<Longrightarrow>
     stable Ls Le val z \<Longrightarrow> stable Ls Le val (rtext s val e @ z)"

lemma rtext_not_Nil: "rtext s val e \<noteq> []"
  by (simp add: rtext_def)

lemma stable_blockD:
  assumes Ls: "lab Ls" and Le: "lab Le" and ce: "clean Le val"
    and st: "stable Ls Le val x" and b: "blockLength Ls Le x = Some n"
  shows "\<exists>s e z. x = rtext s val e @ z \<and> n = length (rtext s val e) \<and> isMarkerText Ls s \<and>
           isMarkerText Le e \<and> (Ls = Le \<longrightarrow> e = s) \<and> stable Ls Le val z"
  using st
proof cases
  case Nil
  with b show ?thesis by simp
next
  case (Skip c t)
  with b show ?thesis by simp
next
  case (Block s e z)
  from blockLength_rtext[OF lab_ns[OF Ls] lab_lt[OF Le] lab_ns[OF Le] Block(2,3) ce, of z] b
  have "n = length (rtext s val e)" unfolding Block(1) by simp
  with Block show ?thesis by blast
qed

lemma stable_skipD:
  assumes Ls: "lab Ls" and Le: "lab Le" and ce: "clean Le val"
    and st: "stable Ls Le val (c # t)" and b: "blockLength Ls Le (c # t) = None"
  shows "stable Ls Le val t"
  using st
proof cases
  case Skip
  then show ?thesis by simp
next
  case (Block s e z)
  from blockLength_rtext[OF lab_ns[OF Ls] lab_lt[OF Le] lab_ns[OF Le] Block(2,3) ce, of z] b
  show ?thesis unfolding Block(1) by simp
qed

lemma stable_prefixI:
  assumes "\<forall>p<length w. blockLength Ls Le (drop p (w @ z)) = None" and "stable Ls Le val z"
  shows "stable Ls Le val (w @ z)"
  using assms
proof (induction w)
  case Nil
  then show ?case by simp
next
  case (Cons c w)
  have "\<forall>p<length w. blockLength Ls Le (drop p (w @ z)) = None"
  proof (intro allI impI)
    fix p assume "p < length w"
    then have "blockLength Ls Le (drop (Suc p) ((c # w) @ z)) = None"
      using Cons.prems(1) by (metis Suc_less_eq length_Cons)
    then show "blockLength Ls Le (drop p (w @ z)) = None" by simp
  qed
  from Cons.IH[OF this Cons.prems(2)] have "stable Ls Le val (w @ z)" .
  moreover have "blockLength Ls Le (c # w @ z) = None" using Cons.prems(1) by force
  ultimately show ?case by (simp add: stable.Skip)
qed

lemma stable_skip_prefix:
  assumes Ls: "lab Ls" and Le: "lab Le" and ce: "clean Le val"
  shows "stable Ls Le val (w @ z) \<Longrightarrow>
     \<forall>p<length w. blockLength Ls Le (drop p (w @ z)) = None \<Longrightarrow> stable Ls Le val z"
proof (induction w)
  case Nil
  then show ?case by simp
next
  case (Cons c w)
  have b: "blockLength Ls Le (c # w @ z) = None" using Cons.prems(2) by force
  from stable_skipD[OF Ls Le ce _ b] Cons.prems(1) have st: "stable Ls Le val (w @ z)" by simp
  have "\<forall>p<length w. blockLength Ls Le (drop p (w @ z)) = None"
  proof (intro allI impI)
    fix p assume "p < length w"
    then have "blockLength Ls Le (drop (Suc p) ((c # w) @ z)) = None"
      using Cons.prems(2) by (metis Suc_less_eq length_Cons)
    then show "blockLength Ls Le (drop p (w @ z)) = None" by simp
  qed
  from Cons.IH[OF st this] show ?case .
qed

lemma rewrite_skip_prefix:
  assumes ns: "\<exists>c\<in>set Ls. \<not> isSpace c" and ne: "\<exists>c\<in>set Le. \<not> isSpace c"
  shows "\<forall>p<length w. blockLength Ls Le (drop p (w @ z)) = None \<Longrightarrow>
     rewriteBlocks Ls Le val (w @ z) =
       (case rewriteBlocks Ls Le val z of Inl err \<Rightarrow> Inl err | Inr z' \<Rightarrow> Inr (w @ z'))"
proof (induction w)
  case Nil
  show ?case by (simp split: sum.splits)
next
  case (Cons c w)
  have b: "blockLength Ls Le (c # w @ z) = None" using Cons.prems by force
  have "\<forall>p<length w. blockLength Ls Le (drop p (w @ z)) = None"
  proof (intro allI impI)
    fix p assume "p < length w"
    then have "blockLength Ls Le (drop (Suc p) ((c # w) @ z)) = None"
      using Cons.prems by (metis Suc_less_eq length_Cons)
    then show "blockLength Ls Le (drop p (w @ z)) = None" by simp
  qed
  from Cons.IH[OF this] show ?case
    using rb_skip[OF ns ne b, of val] by (simp split: sum.splits)
qed

text \<open>A stable document is left as it is.\<close>

lemma stable_rewrite_id:
  assumes Ls: "lab Ls" and Le: "lab Le" and own: "Ls = Le \<or> \<not> shared Ls Le"
    and ce: "clean Le val"
  shows "stable Ls Le val x \<Longrightarrow> rewriteBlocks Ls Le val x = Inr x"
proof (induction rule: stable.induct)
  case Nil
  show ?case by (rule rb_Nil[OF lab_ns[OF Ls] lab_ns[OF Le]])
next
  case (Skip c t)
  then show ?case by (simp add: rb_skip[OF lab_ns[OF Ls] lab_ns[OF Le]])
next
  case (Block s e z)
  note ns = lab_ns[OF Ls] and ne = lab_ns[OF Le] and lts = lab_lt[OF Ls] and lte = lab_lt[OF Le]
  let ?R = "rtext s val e"
  let ?j = "[newline] @ val @ [newline]"
  have b: "blockLength Ls Le (?R @ z) = Some (length ?R)"
    by (rule blockLength_rtext[OF ns lte ne Block(1,2) ce])
  from rb_block[OF lts ns ne own b, of val] obtain s0 i0 e0 where
    f: "?R @ z = s0 @ i0 @ e0 @ drop (length ?R) (?R @ z)" "length ?R = length (s0 @ i0 @ e0)"
    "isMarkerText Ls s0" "isMarkerText Le e0"
    "\<forall>q<length i0. markerLength Le (drop q (i0 @ e0 @ drop (length ?R) (?R @ z))) = None"
    and rw: "rewriteBlocks Ls Le val (?R @ z) =
        (case rewriteBlocks Ls Le val (drop (length ?R) (?R @ z)) of
           Inl err \<Rightarrow> Inl err
         | Inr z' \<Rightarrow> Inr (rtext s0 val (if Ls = Le then s0 else e0) @ z'))" by blast
  have eq: "s @ ?j @ e @ z = s0 @ i0 @ e0 @ z" using f(1) by (simp add: rtext_def)
  have m1: "markerLength Ls (s @ ?j @ e @ z) = Some (length s)"
    by (rule markerLength_append[OF ns Block(1)])
  have m2: "markerLength Ls (s0 @ i0 @ e0 @ z) = Some (length s0)"
    by (rule markerLength_append[OF ns f(3)])
  from m1[unfolded eq] m2 have ls: "length s = length s0" by (metis option.inject)
  with eq have ss: "s0 = s" and rest: "?j @ e @ z = i0 @ e0 @ z" by simp_all
  have ee: "(if Ls = Le then s0 else e0) = e"
  proof (cases "Ls = Le")
    case True
    with Block(3) ss show ?thesis by simp
  next
    case False
    from markerText_open[OF Block(2)] obtain e' where e': "e = ''<!'' @ e'" by blast
    have li: "length i0 = length ?j"
    proof (rule ccontr)
      assume d: "length i0 \<noteq> length ?j"
      show False
      proof (cases "length i0 < length ?j")
        case True
        have "markerLength Le (drop (length i0) (?j @ ''<!'' @ e' @ z)) = None"
          by (rule interior_clean[OF lte ne ce True])
        moreover have "drop (length i0) (?j @ ''<!'' @ e' @ z) = e0 @ z"
          using rest unfolding e' by (metis append.assoc append_eq_conv_conj)
        moreover have "markerLength Le (e0 @ z) = Some (length e0)"
          by (rule markerLength_append[OF ne f(4)])
        ultimately show False by simp
      next
        case False
        with d have lt: "length ?j < length i0" by simp
        then have "markerLength Le (drop (length ?j) (i0 @ e0 @ z)) = None"
          using f(5) by simp
        moreover have "drop (length ?j) (i0 @ e0 @ z) = e @ z"
          unfolding rest[symmetric] by simp
        moreover have "markerLength Le (e @ z) = Some (length e)"
          by (rule markerLength_append[OF ne Block(2)])
        ultimately show False by simp
      qed
    qed
    from append_eq_append_conv[OF disjI1[OF li], of "e0 @ z" "e @ z"] rest
    have "e0 @ z = e @ z" by simp
    with False show ?thesis by simp
  qed
  have "rtext s0 val (if Ls = Le then s0 else e0) = ?R" by (subst ee) (simp add: ss)
  then show ?case unfolding rw using Block.IH by simp
qed

text \<open>The result of a rewrite is stable.\<close>

lemma rewrite_stable:
  assumes Ls: "lab Ls" and Le: "lab Le" and own: "Ls = Le \<or> \<not> shared Ls Le"
    and r: "rewriteBlocks Ls Le val x = Inr y"
  shows "stable Ls Le val y"
  using r
proof (induction x arbitrary: y rule: length_induct)
  case (1 x)
  note ns = lab_ns[OF Ls] and ne = lab_ns[OF Le] and lts = lab_lt[OF Ls] and lte = lab_lt[OF Le]
  show ?case
  proof (cases "blockLength Ls Le x")
    case None
    show ?thesis
    proof (cases x)
      case Nil
      with "1.prems" show ?thesis by (simp add: rb_Nil[OF ns ne] stable.Nil)
    next
      case (Cons c t)
      from "1.prems" None obtain z where z: "rewriteBlocks Ls Le val t = Inr z"
        and y: "y = c # z"
        unfolding Cons rb_skip[OF ns ne None[unfolded Cons]] by (auto split: sum.splits)
      have "length t < length x" by (simp add: Cons)
      from "1.IH"[rule_format, OF this z] have fz: "stable Ls Le val z" .
      have "blockLength Ls Le (c # z) = None"
      proof (rule ccontr)
        assume "blockLength Ls Le (c # z) \<noteq> None"
        then obtain a m where a: "markerLength Ls (c # z) = Some a"
          and m: "findEnd Le (drop a (c # z)) = Some m"
          by (auto simp: blockLength_def split: option.splits)
        from rewriteBlocks_agree[OF ns ne z] show False
        proof
          assume "z = t"
          with a m None Cons show False by (simp add: blockLength_def)
        next
          assume "\<exists>u w w'. t = u @ ''<!'' @ w \<and> z = u @ ''<!'' @ w' \<and>
             blockLength Ls Le (''<!'' @ w) \<noteq> None \<and>
             rewriteBlocks Ls Le val (''<!'' @ w) = Inr (''<!'' @ w')"
          then obtain u w w' where d: "t = u @ ''<!'' @ w" "z = u @ ''<!'' @ w'"
            "blockLength Ls Le (''<!'' @ w) \<noteq> None" by blast
          from head_marker_transfer[OF lts ns a[unfolded d(2)], of w]
          have a': "markerLength Ls (c # t) = Some a" and le: "a \<le> Suc (length u)"
            by (simp_all add: d(1))
          from None a' have "findEnd Le (drop a (c # t)) = None"
            by (simp add: blockLength_def Cons)
          moreover have "drop a (c # t) = drop a (c # u) @ ''<!'' @ w"
            using le unfolding d(1) by (cases a) simp_all
          moreover have "findEnd Le (drop a (c # u) @ ''<!'' @ w) \<noteq> None"
            by (rule findEnd_append[OF blockLength_findEnd[OF d(3)]])
          ultimately show False by simp
        qed
      qed
      then show ?thesis unfolding y using fz by (rule stable.Skip)
    qed
  next
    case (Some n)
    from rb_block[OF lts ns ne own Some, of val] obtain s i e where
      f: "0 < n" "n \<le> length x" "isMarkerText Ls s" "isMarkerText Le e"
      and rw: "rewriteBlocks Ls Le val x =
        (case rewriteBlocks Ls Le val (drop n x) of
           Inl err \<Rightarrow> Inl err
         | Inr z \<Rightarrow> Inr (rtext s val (if Ls = Le then s else e) @ z))" by blast
    from "1.prems" rw obtain z where z: "rewriteBlocks Ls Le val (drop n x) = Inr z"
      and y: "y = rtext s val (if Ls = Le then s else e) @ z" by (auto split: sum.splits)
    have "length (drop n x) < length x" using f(1,2) by simp
    from "1.IH"[rule_format, OF this z] have fz: "stable Ls Le val z" .
    have "isMarkerText Le (if Ls = Le then s else e)" using f(3,4) by auto
    moreover have "Ls = Le \<longrightarrow> (if Ls = Le then s else e) = s" by simp
    ultimately show ?thesis unfolding y using f(3) fz by (intro stable.Block)
  qed
qed

text \<open>
  A rewrite of the blocks of one key brings no marker of another label into the text, when
  the inserted text holds none.
\<close>

lemma rewrite_no_new_marker:
  assumes Ls: "lab Ls" and Le: "lab Le" and own: "Ls = Le \<or> \<not> shared Ls Le"
    and L: "lab L" and d1: "\<not> shared Ls L" and d2: "\<not> shared Le L" and cl: "clean L val"
    and r: "rewriteBlocks Ls Le val z = Inr z'" and fe: "findEnd L z' \<noteq> None"
  shows "findEnd L z \<noteq> None"
  using r fe
proof (induction z arbitrary: z' rule: length_induct)
  case (1 z)
  note ns = lab_ns[OF Ls] and ne = lab_ns[OF Le] and lts = lab_lt[OF Ls] and lte = lab_lt[OF Le]
  show ?case
  proof (cases "blockLength Ls Le z")
    case None
    show ?thesis
    proof (cases z)
      case Nil
      with "1.prems" show ?thesis by (simp add: rb_Nil[OF ns ne])
    next
      case (Cons c t)
      from "1.prems"(1) None obtain t' where t': "rewriteBlocks Ls Le val t = Inr t'"
        and z': "z' = c # t'"
        unfolding Cons rb_skip[OF ns ne None[unfolded Cons]] by (auto split: sum.splits)
      show ?thesis
      proof (cases "markerLength L (c # t')")
        case (Some a)
        have "markerLength L (c # t) = Some a"
          using rewriteBlocks_agree[OF ns ne t']
        proof
          assume "t' = t"
          with Some show ?thesis by simp
        next
          assume "\<exists>u w w'. t = u @ ''<!'' @ w \<and> t' = u @ ''<!'' @ w' \<and>
             blockLength Ls Le (''<!'' @ w) \<noteq> None \<and>
             rewriteBlocks Ls Le val (''<!'' @ w) = Inr (''<!'' @ w')"
          then obtain u w w' where d: "t = u @ ''<!'' @ w" "t' = u @ ''<!'' @ w'"
            by blast
          from head_marker_transfer[OF lab_lt[OF L] lab_ns[OF L] Some[unfolded d(2)], of w]
          show ?thesis by (simp add: d(1))
        qed
        then show ?thesis unfolding Cons by simp
      next
        case nm: None
        with "1.prems"(2) have "findEnd L t' \<noteq> None" unfolding z' by auto
        moreover have "length t < length z" by (simp add: Cons)
        ultimately have "findEnd L t \<noteq> None" using "1.IH"[rule_format, OF _ t'] by blast
        then show ?thesis unfolding Cons by (rule findEnd_Cons_neq)
      qed
    qed
  next
    case (Some n)
    from rb_block[OF lts ns ne own Some, of val] obtain s i e where
      f: "z = s @ i @ e @ drop n z" "0 < n" "n \<le> length z"
      "isMarkerText Ls s" "isMarkerText Le e"
      and rw: "rewriteBlocks Ls Le val z =
        (case rewriteBlocks Ls Le val (drop n z) of
           Inl err \<Rightarrow> Inl err
         | Inr z \<Rightarrow> Inr (rtext s val (if Ls = Le then s else e) @ z))" by blast
    define e2 where "e2 = (if Ls = Le then s else e)"
    have e2: "isMarkerText Le e2" using f(4,5) by (auto simp: e2_def)
    from "1.prems"(1) rw obtain t' where t': "rewriteBlocks Ls Le val (drop n z) = Inr t'"
      and z': "z' = rtext s val e2 @ t'" by (auto simp: e2_def split: sum.splits)
    from "1.prems"(2) obtain m where "findEnd L z' = Some m" by auto
    from findEnd_SomeD[OF this] obtain p k where
      pk: "markerLength L (drop p (rtext s val e2 @ t')) = Some k" unfolding z' by blast
    have "\<not> p < length (rtext s val e2)"
    proof
      assume p: "p < length (rtext s val e2)"
      from pk have "markerLength L (drop p (rtext s val e2 @ t')) \<noteq> None" by simp
      from rtext_marker_positions[OF lts lte f(4) e2 lab_lt[OF L] lab_ns[OF L] cl p this]
      show False
      proof
        assume "p = 0"
        moreover have "markerLength Ls (rtext s val e2 @ t') = Some (length s)"
          unfolding rtext_def using markerLength_append[OF ns f(4)] by simp
        from not_shared_None[OF d1 this]
        have "markerLength L (rtext s val e2 @ t') = None" .
        ultimately show False using pk by simp
      next
        assume pe: "p = length s + length val + 2"
        have "markerLength Le (e2 @ t') = Some (length e2)"
          by (rule markerLength_append[OF ne e2])
        from not_shared_None[OF d2 this] pk show False
          unfolding pe rtext_drop_end by simp
      qed
    qed
    then have "drop p (rtext s val e2 @ t') = drop (p - length (rtext s val e2)) t'" by simp
    with pk have "findEnd L t' \<noteq> None" using findEnd_exists by metis
    moreover have "length (drop n z) < length z" using f(2,3) by simp
    ultimately have "findEnd L (drop n z) \<noteq> None" using "1.IH"[rule_format, OF _ t'] by blast
    then have "findEnd L ((s @ i @ e) @ drop n z) \<noteq> None" by (rule findEnd_append)
    then show ?thesis using f(1) by simp
  qed
qed

text \<open>The scan of a stable document comes by every place where a foreign marker begins.\<close>

lemma stable_drop_to_marker:
  assumes Ls: "lab Ls" and Le: "lab Le"
    and Q: "lab Q" and d1: "\<not> shared Ls Q" and d2: "\<not> shared Le Q" and cl: "clean Q val"
  shows "stable Ls Le val x \<Longrightarrow> markerLength Q (drop k x) \<noteq> None \<Longrightarrow>
     stable Ls Le val (drop k x)"
proof (induction arbitrary: k rule: stable.induct)
  case Nil
  show ?case by (simp add: stable.Nil)
next
  case (Skip c t)
  show ?case
  proof (cases k)
    case 0
    with Skip.hyps show ?thesis by (simp add: stable.Skip)
  next
    case (Suc k')
    with Skip.prems have "markerLength Q (drop k' t) \<noteq> None" by simp
    from Skip.IH[OF this] Suc show ?thesis by simp
  qed
next
  case (Block s e z)
  note ns = lab_ns[OF Ls] and ne = lab_ns[OF Le] and lts = lab_lt[OF Ls] and lte = lab_lt[OF Le]
  show ?case
  proof (cases "k < length (rtext s val e)")
    case True
    from rtext_marker_positions[OF lts lte Block.hyps(1,2) lab_lt[OF Q] lab_ns[OF Q] cl True
        Block.prems]
    show ?thesis
    proof
      assume "k = 0"
      with Block.hyps show ?thesis by (simp add: stable.Block)
    next
      assume pe: "k = length s + length val + 2"
      have "markerLength Le (e @ z) = Some (length e)"
        by (rule markerLength_append[OF ne Block.hyps(2)])
      from not_shared_None[OF d2 this] Block.prems show ?thesis
        unfolding pe rtext_drop_end by simp
    qed
  next
    case False
    then have d: "drop k (rtext s val e @ z) = drop (k - length (rtext s val e)) z" by simp
    with Block.prems have "markerLength Q (drop (k - length (rtext s val e)) z) \<noteq> None"
      by simp
    from Block.IH[OF this] show ?thesis unfolding d .
  qed
qed

text \<open>
  A document stable for one key stays stable when the blocks of another key are rewritten,
  as long as the two keys share no marker and neither inserted text holds a marker of the
  other key.
\<close>

lemma stable_preserved:
  assumes Ls: "lab Ls" and Le: "lab Le" and own: "Ls = Le \<or> \<not> shared Ls Le"
    and Ms: "lab Ms" and Me: "lab Me"
    and d: "\<not> shared Ls Ms" "\<not> shared Le Ms" "\<not> shared Ls Me" "\<not> shared Le Me"
    and cj: "clean Ms val" "clean Me val"
    and ci: "clean Ls vali" "clean Le vali" "clean Me vali"
    and st: "stable Ms Me vali x" and r: "rewriteBlocks Ls Le val x = Inr y"
  shows "stable Ms Me vali y"
  using st r
proof (induction x arbitrary: y rule: length_induct)
  case (1 x)
  note ns = lab_ns[OF Ls] and ne = lab_ns[OF Le] and lts = lab_lt[OF Ls] and lte = lab_lt[OF Le]
  note ms = lab_ns[OF Ms] and me = lab_ns[OF Me] and lms = lab_lt[OF Ms] and lme = lab_lt[OF Me]
  note d' = d[THEN contrapos_nn, OF shared_sym]
  show ?case
  proof (cases "blockLength Ms Me x")
    case (Some n)
    from stable_blockD[OF Ms Me ci(3) "1.prems"(1) Some] obtain s e z where
      x: "x = rtext s vali e @ z" and f: "isMarkerText Ms s" "isMarkerText Me e"
      "Ms = Me \<longrightarrow> e = s" "stable Ms Me vali z" by blast
    let ?R = "rtext s vali e"
    have nb: "\<forall>p<length ?R. blockLength Ls Le (drop p (?R @ z)) = None"
    proof (intro allI impI)
      fix p assume p: "p < length ?R"
      show "blockLength Ls Le (drop p (?R @ z)) = None"
      proof (rule ccontr)
        assume "blockLength Ls Le (drop p (?R @ z)) \<noteq> None"
        then have m: "markerLength Ls (drop p (?R @ z)) \<noteq> None"
          by (auto simp: blockLength_def split: option.splits)
        from rtext_marker_positions[OF lms lme f(1,2) lts ns ci(1) p m] show False
        proof
          assume "p = 0"
          moreover have "markerLength Ms (?R @ z) = Some (length s)"
            unfolding rtext_def using markerLength_append[OF ms f(1)] by simp
          from not_shared_None[OF d'(1) this] have "markerLength Ls (?R @ z) = None" .
          ultimately show False using m by simp
        next
          assume pe: "p = length s + length vali + 2"
          have "markerLength Me (e @ z) = Some (length e)"
            by (rule markerLength_append[OF me f(2)])
          from not_shared_None[OF d'(3) this] m show False
            unfolding pe rtext_drop_end by simp
        qed
      qed
    qed
    from "1.prems"(2) obtain y' where y': "rewriteBlocks Ls Le val z = Inr y'"
      and y: "y = ?R @ y'"
      unfolding x rewrite_skip_prefix[OF ns ne nb] by (auto split: sum.splits)
    have "length z < length x" unfolding x using rtext_not_Nil[of s vali e] by (cases ?R) auto
    from "1.IH"[rule_format, OF this f(4) y'] have "stable Ms Me vali y'" .
    with f(1,2,3) show ?thesis unfolding y by (intro stable.Block)
  next
    case None
    show ?thesis
    proof (cases x)
      case Nil
      with "1.prems"(2) show ?thesis by (simp add: rb_Nil[OF ns ne] stable.Nil)
    next
      case (Cons c t)
      show ?thesis
      proof (cases "blockLength Ls Le x")
        case (Some n)
        from rb_block[OF lts ns ne own Some, of val] obtain s i e where
          f: "x = s @ i @ e @ drop n x" "n = length (s @ i @ e)" "0 < n" "n \<le> length x"
          "isMarkerText Ls s" "isMarkerText Le e"
          and rw: "rewriteBlocks Ls Le val x =
            (case rewriteBlocks Ls Le val (drop n x) of
               Inl err \<Rightarrow> Inl err
             | Inr z \<Rightarrow> Inr (rtext s val (if Ls = Le then s else e) @ z))" by blast
        define e2 where "e2 = (if Ls = Le then s else e)"
        have e2: "isMarkerText Le e2" using f(5,6) by (auto simp: e2_def)
        define x' where "x' = drop n x"
        from "1.prems"(2) rw obtain y' where y': "rewriteBlocks Ls Le val x' = Inr y'"
          and y: "y = rtext s val e2 @ y'" by (auto simp: e2_def x'_def split: sum.splits)
        have dk: "drop (length s + length i) x = e @ x'"
          by (subst f(1)) (simp add: x'_def)
        have "markerLength Le (e @ x') = Some (length e)"
          by (rule markerLength_append[OF ne f(6)])
        then have "markerLength Le (drop (length s + length i) x) \<noteq> None" unfolding dk by simp
        from stable_drop_to_marker[OF Ms Me Le d'(2) d'(4) ci(2) "1.prems"(1) this]
        have st_e: "stable Ms Me vali (e @ x')" unfolding dk .
        have "\<forall>p<length e. blockLength Ms Me (drop p (e @ x')) = None"
        proof (intro allI impI)
          fix p assume p: "p < length e"
          have "markerLength Ms (drop p (e @ x')) = None"
          proof (cases "p = 0")
            case True
            have "markerLength Le (e @ x') = Some (length e)"
              by (rule markerLength_append[OF ne f(6)])
            from not_shared_None[OF d(2) this] True show ?thesis by simp
          next
            case False
            then have "0 < p" by simp
            from marker_inside_None[OF lte f(6) this p] show ?thesis .
          qed
          then show "blockLength Ms Me (drop p (e @ x')) = None" by (simp add: blockLength_def)
        qed
        from stable_skip_prefix[OF Ms Me ci(3) st_e this] have stx: "stable Ms Me vali x'" .
        have "length x' < length x" using f(3,4) by (simp add: x'_def)
        from "1.IH"[rule_format, OF this stx y'] have sty: "stable Ms Me vali y'" .
        let ?R = "rtext s val e2"
        have "\<forall>p<length ?R. blockLength Ms Me (drop p (?R @ y')) = None"
        proof (intro allI impI)
          fix p assume p: "p < length ?R"
          show "blockLength Ms Me (drop p (?R @ y')) = None"
          proof (rule ccontr)
            assume "blockLength Ms Me (drop p (?R @ y')) \<noteq> None"
            then have m: "markerLength Ms (drop p (?R @ y')) \<noteq> None"
              by (auto simp: blockLength_def split: option.splits)
            from rtext_marker_positions[OF lts lte f(5) e2 lms ms cj(1) p m] show False
            proof
              assume "p = 0"
              moreover have "markerLength Ls (?R @ y') = Some (length s)"
                unfolding rtext_def using markerLength_append[OF ns f(5)] by simp
              from not_shared_None[OF d(1) this] have "markerLength Ms (?R @ y') = None" .
              ultimately show False using m by simp
            next
              assume pe: "p = length s + length val + 2"
              have "markerLength Le (e2 @ y') = Some (length e2)"
                by (rule markerLength_append[OF ne e2])
              from not_shared_None[OF d(2) this] m show False
                unfolding pe rtext_drop_end by simp
            qed
          qed
        qed
        from stable_prefixI[OF this sty] show ?thesis unfolding y .
      next
        case nj: None
        from "1.prems"(2) nj obtain z where z: "rewriteBlocks Ls Le val t = Inr z"
          and y: "y = c # z"
          unfolding Cons rb_skip[OF ns ne nj[unfolded Cons]] by (auto split: sum.splits)
        from stable_skipD[OF Ms Me ci(3) "1.prems"(1)[unfolded Cons] None[unfolded Cons]]
        have stt: "stable Ms Me vali t" .
        have "length t < length x" by (simp add: Cons)
        from "1.IH"[rule_format, OF this stt z] have stz: "stable Ms Me vali z" .
        have "blockLength Ms Me (c # z) = None"
        proof (rule ccontr)
          assume "blockLength Ms Me (c # z) \<noteq> None"
          then obtain a m where a: "markerLength Ms (c # z) = Some a"
            and m: "findEnd Me (drop a (c # z)) = Some m"
            by (auto simp: blockLength_def split: option.splits)
          from rewriteBlocks_agree[OF ns ne z] show False
          proof
            assume "z = t"
            with a m None Cons show False by (simp add: blockLength_def)
          next
            assume "\<exists>u w w'. t = u @ ''<!'' @ w \<and> z = u @ ''<!'' @ w' \<and>
               blockLength Ls Le (''<!'' @ w) \<noteq> None \<and>
               rewriteBlocks Ls Le val (''<!'' @ w) = Inr (''<!'' @ w')"
            then obtain u w w' where g: "t = u @ ''<!'' @ w" "z = u @ ''<!'' @ w'"
              "rewriteBlocks Ls Le val (''<!'' @ w) = Inr (''<!'' @ w')" by blast
            from head_marker_transfer[OF lms ms a[unfolded g(2)], of w]
            have a': "markerLength Ms (c # t) = Some a" and le: "a \<le> Suc (length u)"
              by (simp_all add: g(1))
            define v0 where "v0 = drop a (c # u)"
            have dt: "drop a (c # t) = v0 @ ''<!'' @ w"
              using le unfolding g(1) v0_def by (cases a) simp_all
            have dz: "drop a (c # z) = v0 @ ''<!'' @ w'"
              using le unfolding g(2) v0_def by (cases a) simp_all
            from None a' have ft0: "findEnd Me (v0 @ ''<!'' @ w) = None"
              by (simp add: blockLength_def Cons dt)
            from findEnd_SomeD[OF m[unfolded dz]] obtain p k where
              pk: "markerLength Me (drop p (v0 @ ''<!'' @ w')) = Some k" by blast
            show False
            proof (cases "p < length v0")
              case True
              then obtain c' u' where du: "drop p v0 = c' # u'"
                by (cases "drop p v0") auto
              from pk True have "markerLength Me (c' # u' @ ''<!'' @ w') = Some k"
                by (simp add: du)
              from head_marker_transfer[OF lme me this, of w]
              have "markerLength Me (drop p (v0 @ ''<!'' @ w)) = Some k"
                using True by (simp add: du)
              from findEnd_exists[OF this] ft0 show False by simp
            next
              case False
              then have "drop p (v0 @ ''<!'' @ w') = drop (p - length v0) (''<!'' @ w')"
                by simp
              with pk have "findEnd Me (''<!'' @ w') \<noteq> None"
                using findEnd_exists by metis
              from rewrite_no_new_marker[OF Ls Le own Me d(3,4) cj(2) g(3) this]
              have "findEnd Me (''<!'' @ w) \<noteq> None" .
              from findEnd_append[OF this, of v0] ft0 show False by simp
            qed
          qed
        qed
        then show ?thesis unfolding y using stz by (rule stable.Skip)
      qed
    qed
  qed
qed

text \<open>The entries the loop rewrites, and the two labels of a key.\<close>

definition live :: "(string \<times> jsval) list \<Rightarrow> (string \<times> jsval) list" where
  "live kvs = filter (\<lambda>(k, v). \<not> isNullish v) kvs"

definition liveKeys :: "jsdata \<Rightarrow> string list" where
  "liveKeys data = map fst (live (entries data))"

definition labels :: "options \<Rightarrow> string \<Rightarrow> string list" where
  "labels opts key = [key @ '':'' @ startMarker opts, key @ '':'' @ endMarker opts]"

text \<open>
  Keys collide when a marker of one begins with a marker of the other, or when the two
  marker names are different and yet share a marker.
\<close>

definition collisionFree :: "options \<Rightarrow> string list \<Rightarrow> bool" where
  "collisionFree opts ks \<longleftrightarrow>
     (\<forall>k\<in>set ks. \<forall>k'\<in>set ks. \<forall>L\<in>set (labels opts k). \<forall>L'\<in>set (labels opts k').
        shared L L' \<longrightarrow> k = k' \<and> L = L')"

definition markerFree :: "options \<Rightarrow> string list \<Rightarrow> string \<Rightarrow> bool" where
  \<comment> \<open>no marker pattern of the keys matches in the text\<close>
  "markerFree opts ks u \<longleftrightarrow>
     (\<forall>k\<in>set ks. matchAll (markerRegex k (startMarker opts)) u = [] \<and>
                  matchAll (markerRegex k (endMarker opts)) u = [])"

lemma clean_noLt: "CHR ''<'' \<notin> set val \<Longrightarrow> clean L val"
  unfolding clean_def
proof (intro allI)
  fix p assume h: "CHR ''<'' \<notin> set val"
  show "markerLength L (drop p val) = None"
  proof (rule ccontr)
    assume "markerLength L (drop p val) \<noteq> None"
    then obtain a where "markerLength L (drop p val) = Some a" by auto
    from markerLength_head[OF this] obtain t where "drop p val = CHR ''<'' # t" by blast
    then have "CHR ''<'' \<in> set (drop p val)" by simp
    with h show False using set_drop_subset by fastforce
  qed
qed

lemma clean_matchAll:
  assumes "matchAll (markerRegex key marker) val = []"
  shows "clean (key @ '':'' @ marker) val"
  unfolding clean_def
proof (intro allI)
  fix p
  show "markerLength (key @ '':'' @ marker) (drop p val) = None"
  proof (rule ccontr)
    assume "markerLength (key @ '':'' @ marker) (drop p val) \<noteq> None"
    then obtain a where a: "markerLength (key @ '':'' @ marker) (drop p val) = Some a" by auto
    have "p \<le> length val"
    proof (rule ccontr)
      assume "\<not> p \<le> length val"
      then have "drop p val = []" by simp
      with a show False by simp
    qed
    with matchAll_nonempty[of "markerRegex key marker" p val a] a assms
    show False by (simp add: rmatch_markerRegex)
  qed
qed

lemma rewriteKey_cases:
  "rewriteKey opts key v c =
     (if length (matchAll (markerRegex key (startMarker opts)) c) \<noteq>
         length (matchAll (markerRegex key (endMarker opts)) c)
      then Inl (UnmatchedMarkers key (length (matchAll (markerRegex key (startMarker opts)) c))
                  (length (matchAll (markerRegex key (endMarker opts)) c)))
      else rewriteBlocks (key @ '':'' @ startMarker opts) (key @ '':'' @ endMarker opts)
             (render opts v) c)"
  by (simp add: rewriteKey_eq Let_def rewriteBlocks_def blockRegex_blockItems markerRegex_def)

lemma rewriteKey_rewriteBlocks:
  "rewriteKey opts key v c = Inr c' \<Longrightarrow>
     rewriteBlocks (key @ '':'' @ startMarker opts) (key @ '':'' @ endMarker opts)
       (render opts v) c = Inr c'"
  unfolding rewriteKey_cases by (simp split: if_splits)

definition stableFor :: "options \<Rightarrow> string \<Rightarrow> jsval \<Rightarrow> string \<Rightarrow> bool" where
  "stableFor opts key v c =
     stable (key @ '':'' @ startMarker opts) (key @ '':'' @ endMarker opts) (render opts v) c"

text \<open>What the entries with a value have to satisfy, among themselves.\<close>

definition good :: "options \<Rightarrow> (string \<times> jsval) set \<Rightarrow> bool" where
  "good opts E \<longleftrightarrow>
     (\<forall>k v. (k, v) \<in> E \<longrightarrow>
        lab (k @ '':'' @ startMarker opts) \<and> lab (k @ '':'' @ endMarker opts) \<and>
        (k @ '':'' @ startMarker opts = k @ '':'' @ endMarker opts \<or>
         \<not> shared (k @ '':'' @ startMarker opts) (k @ '':'' @ endMarker opts))) \<and>
     (\<forall>k v k' v'. (k, v) \<in> E \<longrightarrow> (k', v') \<in> E \<longrightarrow>
        clean (k @ '':'' @ startMarker opts) (render opts v') \<and>
        clean (k @ '':'' @ endMarker opts) (render opts v') \<and>
        (k \<noteq> k' \<longrightarrow>
           \<not> shared (k @ '':'' @ startMarker opts) (k' @ '':'' @ startMarker opts) \<and>
           \<not> shared (k @ '':'' @ endMarker opts) (k' @ '':'' @ startMarker opts) \<and>
           \<not> shared (k @ '':'' @ startMarker opts) (k' @ '':'' @ endMarker opts) \<and>
           \<not> shared (k @ '':'' @ endMarker opts) (k' @ '':'' @ endMarker opts)))"

lemma good_lab:
  assumes "good opts E" and "(k, v) \<in> E"
  shows "lab (k @ '':'' @ startMarker opts)" and "lab (k @ '':'' @ endMarker opts)"
  using assms unfolding good_def by blast+

lemma good_own:
  assumes "good opts E" and "(k, v) \<in> E"
  shows "k @ '':'' @ startMarker opts = k @ '':'' @ endMarker opts \<or>
         \<not> shared (k @ '':'' @ startMarker opts) (k @ '':'' @ endMarker opts)"
  using assms unfolding good_def by blast

lemma good_clean:
  assumes "good opts E" and "(k, v) \<in> E" and "(k', v') \<in> E"
  shows "clean (k @ '':'' @ startMarker opts) (render opts v')"
    and "clean (k @ '':'' @ endMarker opts) (render opts v')"
  using assms unfolding good_def by blast+

lemma good_apart:
  assumes "good opts E" and "(k, v) \<in> E" and "(k', v') \<in> E" and "k \<noteq> k'"
  shows "\<not> shared (k @ '':'' @ startMarker opts) (k' @ '':'' @ startMarker opts)"
    and "\<not> shared (k @ '':'' @ endMarker opts) (k' @ '':'' @ startMarker opts)"
    and "\<not> shared (k @ '':'' @ startMarker opts) (k' @ '':'' @ endMarker opts)"
    and "\<not> shared (k @ '':'' @ endMarker opts) (k' @ '':'' @ endMarker opts)"
  using assms unfolding good_def by blast+

lemma live_Cons:
  "live ((k, v) # kvs) = (if isNullish v then live kvs else (k, v) # live kvs)"
  by (simp add: live_def)

lemma rewriteLoop_stableFor:
  assumes g: "good opts E"
  shows "distinct (map fst (live kvs)) \<Longrightarrow> set (live kvs) \<subseteq> E \<Longrightarrow> P \<subseteq> E \<Longrightarrow>
     \<forall>(k, v)\<in>P. k \<notin> fst ` set (live kvs) \<and> stableFor opts k v c \<Longrightarrow>
     rewriteLoop opts kvs c = Inr out \<Longrightarrow>
     \<forall>(k, v)\<in>P \<union> set (live kvs). stableFor opts k v out"
proof (induction kvs arbitrary: c P)
  case Nil
  then show ?case by (auto simp: live_def)
next
  case (Cons kv rest)
  obtain k v where kv: "kv = (k, v)" by (cases kv)
  from Cons.prems(5) have nres: "\<not> (k = startMarker opts \<or> k = endMarker opts)"
    by (auto simp: kv split: if_splits)
  show ?case
  proof (cases "isNullish v")
    case True
    then have lv: "live (kv # rest) = live rest" by (simp add: kv live_Cons)
    from Cons.prems(5) True nres have l: "rewriteLoop opts rest c = Inr out" by (simp add: kv)
    from Cons.IH[OF Cons.prems(1)[unfolded lv] Cons.prems(2)[unfolded lv] Cons.prems(3)
        Cons.prems(4)[unfolded lv] l]
    show ?thesis unfolding lv .
  next
    case False
    then have lv: "live (kv # rest) = (k, v) # live rest" by (simp add: kv live_Cons)
    from Cons.prems(1) have dr: "distinct (map fst (live rest))"
      and kn: "k \<notin> fst ` set (live rest)" unfolding lv by simp_all
    from Cons.prems(2) have kE: "(k, v) \<in> E" and rE: "set (live rest) \<subseteq> E"
      unfolding lv by simp_all
    from Cons.prems(5) False nres obtain c1 where c1: "rewriteKey opts k v c = Inr c1"
      and l: "rewriteLoop opts rest c1 = Inr out"
      by (auto simp: kv split: sum.splits)
    let ?Ls = "k @ '':'' @ startMarker opts" and ?Le = "k @ '':'' @ endMarker opts"
    note rb = rewriteKey_rewriteBlocks[OF c1]
    have own: "stableFor opts k v c1"
      unfolding stableFor_def
      by (rule rewrite_stable[OF good_lab[OF g kE] good_own[OF g kE] rb])
    have others: "stableFor opts k' v' c1" if h: "(k', v') \<in> P" for k' v'
    proof -
      from Cons.prems(3) h have hE: "(k', v') \<in> E" by auto
      from Cons.prems(4) h have kk: "k \<noteq> k'" and f: "stableFor opts k' v' c"
        unfolding lv by auto
      show ?thesis unfolding stableFor_def
        by (rule stable_preserved[OF good_lab[OF g kE] good_own[OF g kE] good_lab[OF g hE]
              good_apart[OF g kE hE kk] good_clean[OF g hE kE]
              good_clean[OF g kE hE] good_clean(2)[OF g hE hE]
              f[unfolded stableFor_def] rb])
    qed
    have P': "insert (k, v) P \<subseteq> E" using Cons.prems(3) kE by simp
    have "\<forall>(k', v')\<in>insert (k, v) P. k' \<notin> fst ` set (live rest) \<and> stableFor opts k' v' c1"
      using Cons.prems(4) others own kn unfolding lv by auto
    from Cons.IH[OF dr rE P' this l] show ?thesis unfolding lv by simp
  qed
qed

lemma rewriteLoop_not_reserved:
  "rewriteLoop opts kvs c = Inr out \<Longrightarrow>
     \<forall>(k, v)\<in>set kvs. k \<noteq> startMarker opts \<and> k \<noteq> endMarker opts"
proof (induction kvs arbitrary: c)
  case Nil
  show ?case by simp
next
  case (Cons kv rest)
  obtain k v where kv: "kv = (k, v)" by (cases kv)
  from Cons.prems have nres: "k \<noteq> startMarker opts \<and> k \<noteq> endMarker opts"
    by (auto simp: kv split: if_splits)
  from Cons.prems nres obtain c1 where "rewriteLoop opts rest c1 = Inr out"
    by (auto simp: kv split: if_splits sum.splits)
  from Cons.IH[OF this] nres show ?case by (simp add: kv)
qed

text \<open>
  The first entry with a value whose start and end markers differ in number in a document:
  it is there that the loop stops when it changes nothing before.
\<close>

fun firstUnmatched :: "options \<Rightarrow> (string \<times> jsval) list \<Rightarrow> string \<Rightarrow> error option" where
  "firstUnmatched opts [] c = None"
| "firstUnmatched opts ((key, v) # rest) c =
     (if isNullish v then firstUnmatched opts rest c
      else (let startCount = length (matchAll (markerRegex key (startMarker opts)) c);
                endCount = length (matchAll (markerRegex key (endMarker opts)) c)
            in if startCount \<noteq> endCount then Some (UnmatchedMarkers key startCount endCount)
               else firstUnmatched opts rest c))"

lemma firstUnmatched_empty: "firstUnmatched opts kvs [] = None"
proof (induction kvs)
  case Nil
  show ?case by simp
next
  case (Cons kv rest)
  obtain k v where kv: "kv = (k, v)" by (cases kv)
  have "matchAll (markerRegex k m) [] = []" for m
    by (simp add: matchAll_Nil_iff rmatch_markerRegex)
  with Cons show ?case by (simp add: kv)
qed

lemma rewriteLoop_again:
  assumes g: "good opts E"
  shows "set (live kvs) \<subseteq> E \<Longrightarrow> \<forall>(k, v)\<in>set (live kvs). stableFor opts k v c \<Longrightarrow>
     \<forall>(k, v)\<in>set kvs. k \<noteq> startMarker opts \<and> k \<noteq> endMarker opts \<Longrightarrow>
     rewriteLoop opts kvs c =
       (case firstUnmatched opts kvs c of None \<Rightarrow> Inr c | Some err \<Rightarrow> Inl err)"
proof (induction kvs)
  case Nil
  show ?case by simp
next
  case (Cons kv rest)
  obtain k v where kv: "kv = (k, v)" by (cases kv)
  from Cons.prems(3) have nres: "\<not> (k = startMarker opts \<or> k = endMarker opts)"
    and rr: "\<forall>(k, v)\<in>set rest. k \<noteq> startMarker opts \<and> k \<noteq> endMarker opts"
    by (simp_all add: kv)
  show ?case
  proof (cases "isNullish v")
    case True
    then have lv: "live (kv # rest) = live rest" by (simp add: kv live_Cons)
    from Cons.IH[OF Cons.prems(1)[unfolded lv] Cons.prems(2)[unfolded lv] rr]
    show ?thesis using True nres by (simp add: kv)
  next
    case False
    then have lv: "live (kv # rest) = (k, v) # live rest" by (simp add: kv live_Cons)
    from Cons.prems(1) have kE: "(k, v) \<in> E" and rE: "set (live rest) \<subseteq> E"
      unfolding lv by simp_all
    from Cons.prems(2) have sk: "stableFor opts k v c"
      and sr: "\<forall>(k, v)\<in>set (live rest). stableFor opts k v c" unfolding lv by simp_all
    have id: "rewriteBlocks (k @ '':'' @ startMarker opts) (k @ '':'' @ endMarker opts)
        (render opts v) c = Inr c"
      by (rule stable_rewrite_id[OF good_lab[OF g kE] good_own[OF g kE]
            good_clean(2)[OF g kE kE] sk[unfolded stableFor_def]])
    show ?thesis
    proof (cases "length (matchAll (markerRegex k (startMarker opts)) c) \<noteq>
         length (matchAll (markerRegex k (endMarker opts)) c)")
      case True
      then have "rewriteKey opts k v c =
          Inl (UnmatchedMarkers k (length (matchAll (markerRegex k (startMarker opts)) c))
             (length (matchAll (markerRegex k (endMarker opts)) c)))"
        unfolding rewriteKey_cases by simp
      then show ?thesis using True False nres by (simp add: kv Let_def)
    next
      case eq: False
      then have "rewriteKey opts k v c = Inr c" unfolding rewriteKey_cases using id by simp
      with Cons.IH[OF rE sr rr] show ?thesis using eq False nres by (simp add: kv Let_def)
    qed
  qed
qed

lemma rewriteLoop_twice:
  assumes g: "good opts (set (live kvs))" and d: "distinct (map fst (live kvs))"
    and l: "rewriteLoop opts kvs c = Inr c1"
  shows "rewriteLoop opts kvs c1 =
     (case firstUnmatched opts kvs c1 of None \<Rightarrow> Inr c1 | Some err \<Rightarrow> Inl err)"
proof -
  have "\<forall>(k, v)\<in>{}. k \<notin> fst ` set (live kvs) \<and> stableFor opts k v c" by simp
  from rewriteLoop_stableFor[OF g d subset_refl empty_subsetI this l]
  have "\<forall>(k, v)\<in>set (live kvs). stableFor opts k v c1" by simp
  from rewriteLoop_again[OF g subset_refl this rewriteLoop_not_reserved[OF l]]
  show ?thesis .
qed

lemma good_entries:
  assumes lt: "\<forall>k\<in>set (liveKeys data). \<forall>L\<in>set (labels opts k). noOpen L"
    and cf: "collisionFree opts (liveKeys data)"
    and vals: "allowRaw opts \<longrightarrow>
      (\<forall>(k, v)\<in>set (entries data). \<not> isNullish v \<longrightarrow> markerFree opts (liveKeys data) (String v))"
  shows "good opts (set (live (entries data)))"
proof -
  let ?E = "set (live (entries data))"
  let ?sm = "startMarker opts" and ?em = "endMarker opts"
  have key: "k \<in> set (liveKeys data)" if "(k, v) \<in> ?E" for k v
    using that unfolding liveKeys_def by force
  have lbl: "k @ '':'' @ ?sm \<in> set (labels opts k)" "k @ '':'' @ ?em \<in> set (labels opts k)" for k
    by (simp_all add: labels_def)
  have sh: "k = k' \<and> L = L'" if "k \<in> set (liveKeys data)" "k' \<in> set (liveKeys data)"
    "L \<in> set (labels opts k)" "L' \<in> set (labels opts k')" "shared L L'" for k k' L L'
    using cf that unfolding collisionFree_def by blast
  have one: "lab (k @ '':'' @ ?sm) \<and> lab (k @ '':'' @ ?em) \<and>
        (k @ '':'' @ ?sm = k @ '':'' @ ?em \<or> \<not> shared (k @ '':'' @ ?sm) (k @ '':'' @ ?em))"
    if h: "(k, v) \<in> ?E" for k v
  proof -
    from lt key[OF h] lbl[of k] have "noOpen (k @ '':'' @ ?sm)"
      "noOpen (k @ '':'' @ ?em)" by blast+
    then have "lab (k @ '':'' @ ?sm)" "lab (k @ '':'' @ ?em)"
      unfolding lab_def using marker_nonspace[of k ?sm] marker_nonspace[of k ?em] by blast+
    moreover have "k @ '':'' @ ?sm = k @ '':'' @ ?em \<or>
        \<not> shared (k @ '':'' @ ?sm) (k @ '':'' @ ?em)"
      using sh[OF key[OF h] key[OF h] lbl(1) lbl(2)] by blast
    ultimately show ?thesis by blast
  qed
  have cl: "clean (k @ '':'' @ ?sm) (render opts v') \<and> clean (k @ '':'' @ ?em) (render opts v')"
    if h: "(k, v) \<in> ?E" and h': "(k', v') \<in> ?E" for k v k' v'
  proof (cases "allowRaw opts")
    case True
    from h' have "(k', v') \<in> set (entries data)" "\<not> isNullish v'" by (auto simp: live_def)
    with vals True have "markerFree opts (liveKeys data) (String v')" by blast
    with key[OF h] have "matchAll (markerRegex k ?sm) (String v') = []"
      "matchAll (markerRegex k ?em) (String v') = []" unfolding markerFree_def by blast+
    from this[THEN clean_matchAll] True show ?thesis by (simp add: render_def)
  next
    case False
    have "CHR ''<'' \<notin> set (escapeHtml (String v'))" using escapeHtml_no_raw by blast
    then have "CHR ''<'' \<notin> set (render opts v')" using False by (simp add: render_def)
    then show ?thesis using clean_noLt by blast
  qed
  have ap: "\<not> shared (k @ '':'' @ ?sm) (k' @ '':'' @ ?sm) \<and>
           \<not> shared (k @ '':'' @ ?em) (k' @ '':'' @ ?sm) \<and>
           \<not> shared (k @ '':'' @ ?sm) (k' @ '':'' @ ?em) \<and>
           \<not> shared (k @ '':'' @ ?em) (k' @ '':'' @ ?em)"
    if h: "(k, v) \<in> ?E" and h': "(k', v') \<in> ?E" and ne: "k \<noteq> k'" for k v k' v'
    using sh[OF key[OF h] key[OF h']] lbl[of k] lbl[of k'] ne by blast
  show ?thesis unfolding good_def using one cl ap by blast
qed

lemma toString_not_buffer: "\<not> isBuffer (toString dec input)"
  by (cases input) simp_all

lemma toString_id: "\<not> isBuffer x \<Longrightarrow> toString dec x = x"
  by (cases x) simp_all

lemma decodeAscii_encodeAscii: "decodeAscii (encodeAscii s) = s"
  by (induction s) (simp_all add: decodeAscii_def encodeAscii_def unat_of_nat)

lemma returnThis_again:
  assumes nb: "\<not> isBuffer F"
    and codec: "isBuffer input \<and> preserveType opts \<longrightarrow> (\<forall>s. dec (enc s) = s)"
    and r: "returnThis enc opts (isBuffer input) F = Inr once"
  shows "toString dec once = F \<and> returnThis enc opts (isBuffer once) F = Inr once"
proof (cases "preserveType opts \<and> isBuffer input")
  case True
  with r have b: "bufferFrom enc F = Inr once" by (simp add: returnThis_def)
  with nb obtain s where F: "F = Str s" and o: "once = Buf (enc s)" by (cases F) auto
  from True codec have "dec (enc s) = s" by simp
  with True F o show ?thesis by (simp add: returnThis_def)
next
  case False
  with r have o: "once = F" by (auto simp: returnThis_def)
  with nb show ?thesis by (simp add: toString_id returnThis_def)
qed

text \<open>
  A criterion for keys that do not collide: labels without \<open>>\<close> share a marker only when
  they are equal up to the white space around them.
\<close>

definition strip :: "string \<Rightarrow> string" where
  "strip s = rev (dropWhile isSpace (rev (dropWhile isSpace s)))"

lemma strip_spaces:
  assumes a: "list_all isSpace a" and b: "list_all isSpace b" and ns: "\<exists>c\<in>set L. \<not> isSpace c"
  shows "strip (a @ L @ b) = strip L"
proof -
  have 1: "dropWhile isSpace (a @ L @ b) = dropWhile isSpace (L @ b)"
    using a by (simp add: dropWhile_append2 list_all_iff)
  from ns obtain c where c: "c \<in> set L" "\<not> isSpace c" by blast
  have 2: "dropWhile isSpace (L @ b) = dropWhile isSpace L @ b"
    using c by (rule dropWhile_append1)
  have 3: "dropWhile isSpace (rev b @ rev (dropWhile isSpace L)) =
      dropWhile isSpace (rev (dropWhile isSpace L))"
    using b by (intro dropWhile_append2) (simp add: list_all_iff)
  show ?thesis unfolding strip_def 1 2 rev_append 3 ..
qed

lemma isSpace_not_gt: "isSpace c \<Longrightarrow> c \<noteq> CHR ''>''"
  by (auto simp: isSpace_def)

lemma markerText_gt:
  assumes "CHR ''>'' \<notin> set L" and "isMarkerText L m"
  shows "\<exists>m0. m = m0 @ ''>'' \<and> CHR ''>'' \<notin> set m0"
proof -
  from assms(2) obtain a b where ab: "list_all isSpace a" "list_all isSpace b"
    and m: "m = ''<!--'' @ a @ L @ b @ ''-->''" by (auto simp: isMarkerText_def)
  have "CHR ''>'' \<notin> set a" "CHR ''>'' \<notin> set b"
    using ab isSpace_not_gt by (auto simp: list_all_iff)
  with assms(1) have "CHR ''>'' \<notin> set (''<!--'' @ a @ L @ b @ ''--'')" by simp
  moreover have "m = (''<!--'' @ a @ L @ b @ ''--'') @ ''>''" by (simp add: m)
  ultimately show ?thesis by blast
qed

lemma marker_prefix_eq:
  assumes L: "CHR ''>'' \<notin> set L" and L': "CHR ''>'' \<notin> set L'"
    and s: "isMarkerText L s" and s': "isMarkerText L' s'" and p: "prefix s s'"
  shows "s = s'"
proof -
  from markerText_gt[OF L s] obtain m0 where m0: "s = m0 @ ''>''" by blast
  from markerText_gt[OF L' s'] obtain m1 where m1: "s' = m1 @ ''>''" "CHR ''>'' \<notin> set m1"
    by blast
  from p obtain r where r: "s' = s @ r" by (auto simp: prefix_def)
  have "r = []"
  proof (rule ccontr)
    assume "r \<noteq> []"
    then have "s' = (m0 @ ''>'' @ butlast r) @ [last r]" using r m0 by simp
    with m1(1) have "m1 @ [CHR ''>''] = (m0 @ ''>'' @ butlast r) @ [last r]" by simp
    then have "m1 = m0 @ ''>'' @ butlast r" by (simp only: append1_eq_conv)
    with m1(2) show False by simp
  qed
  with r show ?thesis by simp
qed

lemma shared_strip:
  assumes L: "CHR ''>'' \<notin> set L" and L': "CHR ''>'' \<notin> set L'"
    and ns: "\<exists>c\<in>set L. \<not> isSpace c" and ns': "\<exists>c\<in>set L'. \<not> isSpace c"
    and sh: "shared L L'"
  shows "strip L = strip L'"
proof -
  from sh obtain s s' where h: "isMarkerText L s" "isMarkerText L' s'" "prefix s s' \<or> prefix s' s"
    by (auto simp: shared_def)
  have eq: "s = s'"
    using h(3) marker_prefix_eq[OF L L' h(1,2)] marker_prefix_eq[OF L' L h(2,1)] by auto
  from h(1) obtain a b where ab: "list_all isSpace a" "list_all isSpace b"
    and m: "s = ''<!--'' @ a @ L @ b @ ''-->''" by (auto simp: isMarkerText_def)
  from h(2) obtain a' b' where ab': "list_all isSpace a'" "list_all isSpace b'"
    and m': "s' = ''<!--'' @ a' @ L' @ b' @ ''-->''" by (auto simp: isMarkerText_def)
  from eq m m' have "a @ L @ b = a' @ L' @ b'" by simp
  then have "strip (a @ L @ b) = strip (a' @ L' @ b')" by simp
  then show ?thesis unfolding strip_spaces[OF ab ns] strip_spaces[OF ab' ns'] .
qed

lemma collisionFree_strip:
  assumes gt: "\<forall>k\<in>set ks. \<forall>L\<in>set (labels opts k). CHR ''>'' \<notin> set L"
    and st: "\<forall>k\<in>set ks. \<forall>k'\<in>set ks. \<forall>L\<in>set (labels opts k). \<forall>L'\<in>set (labels opts k').
       strip L = strip L' \<longrightarrow> k = k' \<and> L = L'"
  shows "collisionFree opts ks"
  unfolding collisionFree_def
proof (intro ballI impI)
  fix k k' L L'
  assume h: "k \<in> set ks" "k' \<in> set ks" "L \<in> set (labels opts k)" "L' \<in> set (labels opts k')"
    and sh: "shared L L'"
  have ns: "\<exists>c\<in>set L. \<not> isSpace c" using h(3) marker_nonspace by (auto simp: labels_def)
  have ns': "\<exists>c\<in>set L'. \<not> isSpace c" using h(4) marker_nonspace by (auto simp: labels_def)
  from gt h have "CHR ''>'' \<notin> set L" "CHR ''>'' \<notin> set L'" by blast+
  from shared_strip[OF this ns ns' sh] st h show "k = k' \<and> L = L'" by blast
qed

text \<open>
  Two runs in which the second call returns, and returns another text than the first. With
  \<open>allowRaw\<close>, a value that holds markers of its own key is inserted anew into the blocks it
  brought in. A key that holds a rewritten block of another key gets its markers only when
  that block is rewritten, so that its own blocks are there for the second call only.
\<close>

lemma raw_value_with_markers:
  "rewriteMdComment decodeAscii encodeAscii (Str ''<!--k:start-->x<!--k:end-->'')
     (DObject [(''k'', VStr ''<!--k:end--><!--k:start-->'')]) (defaultOptions\<lparr>allowRaw := True\<rparr>) =
     Inr (Str (''<!--k:start-->'' @ [newline] @ ''<!--k:end--><!--k:start-->'' @ [newline] @ ''<!--k:end-->'')) \<and>
   rewriteMdComment decodeAscii encodeAscii (Str (''<!--k:start-->'' @ [newline] @ ''<!--k:end--><!--k:start-->'' @ [newline] @ ''<!--k:end-->''))
     (DObject [(''k'', VStr ''<!--k:end--><!--k:start-->'')]) (defaultOptions\<lparr>allowRaw := True\<rparr>) =
     Inr (Str (''<!--k:start-->'' @ [newline] @ ''<!--k:end--><!--k:start-->'' @ [newline] @ ''<!--k:end--><!--k:start-->'' @ [newline] @ ''<!--k:end--><!--k:start-->'' @ [newline] @ ''<!--k:end-->''))"
  by code_simp

lemma key_with_marker:
  "rewriteMdComment decodeAscii encodeAscii
     (Str (''<!--a<!--x:start-->old<!--x:end-->:start-->p<!--a<!--x:start-->'' @ [newline] @ ''V'' @ [newline] @ ''<!--x:end-->:end-->r<!--a<!--x:start-->'' @ [newline] @ ''V'' @ [newline] @ ''<!--x:end-->:start-->q<!--a<!--x:start-->old<!--x:end-->:end-->''))
     (DObject [(''a<!--x:start-->'' @ [newline] @ ''V'' @ [newline] @ ''<!--x:end-->'', VStr ''1''), (''x'', VStr ''V'')]) defaultOptions =
     Inr (Str (''<!--a<!--x:start-->'' @ [newline] @ ''V'' @ [newline] @ ''<!--x:end-->:start-->p<!--a<!--x:start-->'' @ [newline] @ ''V'' @ [newline] @ ''<!--x:end-->:end-->r<!--a<!--x:start-->'' @ [newline] @ ''V'' @ [newline] @ ''<!--x:end-->:start-->q<!--a<!--x:start-->'' @ [newline] @ ''V'' @ [newline] @ ''<!--x:end-->:end-->'')) \<and>
   rewriteMdComment decodeAscii encodeAscii
     (Str (''<!--a<!--x:start-->'' @ [newline] @ ''V'' @ [newline] @ ''<!--x:end-->:start-->p<!--a<!--x:start-->'' @ [newline] @ ''V'' @ [newline] @ ''<!--x:end-->:end-->r<!--a<!--x:start-->'' @ [newline] @ ''V'' @ [newline] @ ''<!--x:end-->:start-->q<!--a<!--x:start-->'' @ [newline] @ ''V'' @ [newline] @ ''<!--x:end-->:end-->''))
     (DObject [(''a<!--x:start-->'' @ [newline] @ ''V'' @ [newline] @ ''<!--x:end-->'', VStr ''1''), (''x'', VStr ''V'')]) defaultOptions =
     Inr (Str (''<!--a<!--x:start-->'' @ [newline] @ ''V'' @ [newline] @ ''<!--x:end-->:start-->'' @ [newline] @ ''1'' @ [newline] @ ''<!--a<!--x:start-->'' @ [newline] @ ''V'' @ [newline] @ ''<!--x:end-->:end-->r<!--a<!--x:start-->'' @ [newline] @ ''V'' @ [newline] @ ''<!--x:end-->:start-->'' @ [newline] @ ''1'' @ [newline] @ ''<!--a<!--x:start-->'' @ [newline] @ ''V'' @ [newline] @ ''<!--x:end-->:end-->''))"
  by code_simp

section \<open>The claims\<close>
text \<open>
  C9: the rewrite locates the markers of a key by a literal match of \<open>key:role\<close>. Key and
  role both go through \<open>escReg\<close>, so, whatever characters they hold, the three patterns the
  loop compiles for a key are the sequences of these characters between the delimiters and
  the white space; the pass for a key the loop reaches counts and replaces with these
  patterns on the document the earlier entries left, and the loop goes on from there; a marker
  pattern matches at the head of a text exactly the marker texts, and the block pattern
  exactly a start marker, an interior in which no end marker begins, and an end marker.
\<close>

theorem C9_literal_markers:
  assumes "toString dec input = Str c" and "c \<noteq> []"
    and "startMarker opts \<noteq> []" and "endMarker opts \<noteq> []"
    and "rewriteLoop opts pre c = Inr c1"
    and "key \<noteq> startMarker opts" and "key \<noteq> endMarker opts" and "\<not> isNullish v"
  shows "parseRegex (markerSrc key marker) = Some (markerRegex key marker) \<and>
     parseRegex (blockSrc key sm em) = Some (blockRegex key sm em) \<and>
     rewriteMdComment dec enc input (DObject (pre @ (key, v) # post)) opts =
       (let startCount = length (matchAll (markerRegex key (startMarker opts)) c1);
            endCount = length (matchAll (markerRegex key (endMarker opts)) c1)
        in if startCount \<noteq> endCount then Inl (UnmatchedMarkers key startCount endCount)
           else (case replaceAll (blockRegex key (startMarker opts) (endMarker opts))
                        (replacer (markerRegex key (startMarker opts))
                           (markerRegex key (endMarker opts)) (render opts v)) c1 of
                   Inl e \<Rightarrow> Inl e
                 | Inr c' \<Rightarrow>
                     (case rewriteLoop opts post c' of
                        Inl e \<Rightarrow> Inl e
                      | Inr c'' \<Rightarrow> returnThis enc opts (isBuffer input) (Str c'')))) \<and>
     (rmatch (markerRegex key marker) xs = Some n \<longleftrightarrow>
        n \<le> length xs \<and> isMarker key marker (take n xs)) \<and>
     (rmatch (blockRegex key sm em) xs = Some n \<longleftrightarrow>
        (\<exists>s i e. n \<le> length xs \<and> take n xs = s @ i @ e \<and>
           isMarker key sm s \<and> isMarker key em e \<and>
           (\<forall>q<length i. \<forall>m. \<not> isMarker key em (take m (drop q (i @ e @ drop n xs))))))"
proof -
  have run: "rewriteMdComment dec enc input (DObject (pre @ (key, v) # post)) opts =
       (let startCount = length (matchAll (markerRegex key (startMarker opts)) c1);
            endCount = length (matchAll (markerRegex key (endMarker opts)) c1)
        in if startCount \<noteq> endCount then Inl (UnmatchedMarkers key startCount endCount)
           else (case replaceAll (blockRegex key (startMarker opts) (endMarker opts))
                        (replacer (markerRegex key (startMarker opts))
                           (markerRegex key (endMarker opts)) (render opts v)) c1 of
                   Inl e \<Rightarrow> Inl e
                 | Inr c' \<Rightarrow>
                     (case rewriteLoop opts post c' of
                        Inl e \<Rightarrow> Inl e
                      | Inr c'' \<Rightarrow> returnThis enc opts (isBuffer input) (Str c''))))"
    using assms
    by (simp add: rewriteMdComment_def rewriteLoop_append rewriteKey_eq Let_def
        split: sum.splits)
  have m: "rmatch (markerRegex key marker) xs = Some n \<longleftrightarrow>
        n \<le> length xs \<and> isMarker key marker (take n xs)"
    unfolding rmatch_markerRegex isMarker_def
    by (rule markerLength_iff[OF marker_nonspace])
  have b: "rmatch (blockRegex key sm em) xs = Some n \<longleftrightarrow>
        (\<exists>s i e. n \<le> length xs \<and> take n xs = s @ i @ e \<and>
           isMarker key sm s \<and> isMarker key em e \<and>
           (\<forall>q<length i. \<forall>m. \<not> isMarker key em (take m (drop q (i @ e @ drop n xs)))))"
    unfolding rmatch_blockRegex isMarker_def
    by (rule blockLength_iff[OF marker_nonspace marker_nonspace])
  from parseRegex_markerSrc[of key marker] parseRegex_blockSrc[of key sm em] run m b
  show ?thesis by blast
qed

theorem C9_witness:
  "rewriteMdComment decodeAscii encodeAscii
     (Str ''<!-- a.b:(s) -->x<!-- a.b:e+ --><!--axb:(s)-->y<!--axb:e+-->'')
     (DObject [(''a.b'', VStr ''V'')])
     \<lparr>preserveType = False, startMarker = ''(s)'', endMarker = ''e+'', allowRaw = False\<rparr> =
     Inr (Str (''<!-- a.b:(s) -->'' @ [newline] @ ''V'' @ [newline] @
               ''<!-- a.b:e+ --><!--axb:(s)-->y<!--axb:e+-->'')) \<and>
   isMarker ''a.b'' ''(s)'' ''<!-- a.b:(s) -->'' \<and>
   \<not> isMarker ''a.b'' ''(s)'' ''<!--axb:(s)-->'' \<and>
   \<not> isMarker ''a.b'' ''e+'' ''<!--a.b:ee-->''"
proof -
  let ?o = "\<lparr>preserveType = False, startMarker = ''(s)'', endMarker = ''e+'', allowRaw = False\<rparr>"
  let ?doc = "''<!-- a.b:(s) -->x<!-- a.b:e+ --><!--axb:(s)-->y<!--axb:e+-->''"
  let ?v = "VStr ''V''"
  have pre: "rewriteLoop ?o [] ?doc = Inr ?doc" by simp
  note th = C9_literal_markers[where dec = decodeAscii and enc = encodeAscii
      and input = "Str ?doc" and c = ?doc and opts = ?o and pre = "[]" and ?c1.0 = ?doc
      and key = "''a.b''" and v = ?v and post = "[]", OF _ _ _ _ pre]
  have rhs: "(let startCount = length (matchAll (markerRegex ''a.b'' (startMarker ?o)) ?doc);
            endCount = length (matchAll (markerRegex ''a.b'' (endMarker ?o)) ?doc)
        in if startCount \<noteq> endCount then Inl (UnmatchedMarkers ''a.b'' startCount endCount)
           else (case replaceAll (blockRegex ''a.b'' (startMarker ?o) (endMarker ?o))
                        (replacer (markerRegex ''a.b'' (startMarker ?o))
                           (markerRegex ''a.b'' (endMarker ?o)) (render ?o ?v)) ?doc of
                   Inl e \<Rightarrow> Inl e
                 | Inr c' \<Rightarrow>
                     (case rewriteLoop ?o [] c' of
                        Inl e \<Rightarrow> Inl e
                      | Inr c'' \<Rightarrow> returnThis encodeAscii ?o (isBuffer (Str ?doc)) (Str c'')))) =
      Inr (Str (''<!-- a.b:(s) -->'' @ [newline] @ ''V'' @ [newline] @
               ''<!-- a.b:e+ --><!--axb:(s)-->y<!--axb:e+-->''))"
    by code_simp
  have run: "rewriteMdComment decodeAscii encodeAscii (Str ?doc) (DObject [(''a.b'', ?v)]) ?o =
      Inr (Str (''<!-- a.b:(s) -->'' @ [newline] @ ''V'' @ [newline] @
               ''<!-- a.b:e+ --><!--axb:(s)-->y<!--axb:e+-->''))"
    using th rhs by (simp add: isNullish_def)
  have m1: "rmatch (markerRegex ''a.b'' ''(s)'') ''<!-- a.b:(s) -->'' = Some 16" by code_simp
  have m2: "rmatch (markerRegex ''a.b'' ''(s)'') ''<!--axb:(s)-->'' = None" by code_simp
  have m3: "rmatch (markerRegex ''a.b'' ''e+'') ''<!--a.b:ee-->'' = None" by code_simp
  have i1: "isMarker ''a.b'' ''(s)'' ''<!-- a.b:(s) -->''"
    using th[where marker = "''(s)''" and xs = "''<!-- a.b:(s) -->''" and n = 16] m1
    by (simp add: isNullish_def)
  have i2: "\<not> isMarker ''a.b'' ''(s)'' ''<!--axb:(s)-->''"
    using th[where marker = "''(s)''" and xs = "''<!--axb:(s)-->''" and n = 14] m2
    by (simp add: isNullish_def)
  have i3: "\<not> isMarker ''a.b'' ''e+'' ''<!--a.b:ee-->''"
    using th[where marker = "''e+''" and xs = "''<!--a.b:ee-->''" and n = 13] m3
    by (simp add: isNullish_def)
  from run i1 i2 i3 show ?thesis by simp
qed

text \<open>
  C2: when the keys before \<open>key\<close> went through and the document they left has different
  numbers of start and end markers for \<open>key\<close>, the call ends with the unmatched-markers
  error for that key, carrying both counts, whatever the later entries are.
\<close>

theorem C2_unmatched_markers:
  assumes "toString dec input = Str c" and "c \<noteq> []"
    and "startMarker opts \<noteq> []" and "endMarker opts \<noteq> []"
    and "rewriteLoop opts pre c = Inr c'"
    and "key \<noteq> startMarker opts" and "key \<noteq> endMarker opts" and "\<not> isNullish v"
    and "length (matchAll (markerRegex key (startMarker opts)) c') = s"
    and "length (matchAll (markerRegex key (endMarker opts)) c') = e"
    and "s \<noteq> e"
  shows "rewriteMdComment dec enc input (DObject (pre @ (key, v) # post)) opts =
           Inl (UnmatchedMarkers key s e) \<and>
         message (UnmatchedMarkers key s e) =
           ''[rewrite.md] Unmatched markers for key '' @ key @ '': start='' @ showNat s @
             '', end='' @ showNat e"
  using assms
  by (simp add: rewriteMdComment_def rewriteLoop_append rewriteKey_eq Let_def)

theorem C2_witness:
  "rewriteMdComment decodeAscii encodeAscii (Str ''<!-- version:start -->broken'')
     (DObject [(''version'', VStr ''1.0.0'')]) defaultOptions =
       Inl (UnmatchedMarkers ''version'' 1 0) \<and>
   rewriteMdComment decodeAscii encodeAscii
     (Str ''<!-- a:start -->x<!-- a:end --><!-- v:start -->1<!-- v:end --><!-- v:end -->'')
     (DObject [(''a'', VStr ''A''), (''v'', VStr ''X''), (''end'', VStr ''not reached'')])
     defaultOptions = Inl (UnmatchedMarkers ''v'' 1 2)"
proof -
  let ?d1 = "''<!-- version:start -->broken''"
  have a1: "rewriteLoop defaultOptions [] ?d1 = Inr ?d1" by simp
  have s1: "length (matchAll (markerRegex ''version'' (startMarker defaultOptions)) ?d1) = 1"
    by code_simp
  have e1: "length (matchAll (markerRegex ''version'' (endMarker defaultOptions)) ?d1) = 0"
    by code_simp
  have w1: "rewriteMdComment decodeAscii encodeAscii (Str ?d1)
     (DObject ([] @ (''version'', VStr ''1.0.0'') # [])) defaultOptions =
       Inl (UnmatchedMarkers ''version'' 1 0)"
    using C2_unmatched_markers[OF _ _ _ _ a1 _ _ _ s1 e1, of decodeAscii "Str ?d1"
        "VStr ''1.0.0''" encodeAscii "[]"]
    by (simp add: defaultOptions_def isNullish_def)
  let ?d2 = "''<!-- a:start -->x<!-- a:end --><!-- v:start -->1<!-- v:end --><!-- v:end -->''"
  let ?d2' = "''<!-- a:start -->'' @ [newline] @ ''A'' @ [newline] @
      ''<!-- a:end --><!-- v:start -->1<!-- v:end --><!-- v:end -->''"
  have a2: "rewriteLoop defaultOptions [(''a'', VStr ''A'')] ?d2 = Inr ?d2'" by code_simp
  have s2: "length (matchAll (markerRegex ''v'' (startMarker defaultOptions)) ?d2') = 1"
    by code_simp
  have e2: "length (matchAll (markerRegex ''v'' (endMarker defaultOptions)) ?d2') = 2"
    by code_simp
  have w2: "rewriteMdComment decodeAscii encodeAscii (Str ?d2)
     (DObject ([(''a'', VStr ''A'')] @ (''v'', VStr ''X'') # [(''end'', VStr ''not reached'')]))
     defaultOptions = Inl (UnmatchedMarkers ''v'' 1 2)"
    using C2_unmatched_markers[OF _ _ _ _ a2 _ _ _ s2 e2, of decodeAscii "Str ?d2"
        "VStr ''X''" encodeAscii "[(''end'', VStr ''not reached'')]"]
    by (simp add: defaultOptions_def isNullish_def)
  from w1 w2 show ?thesis by simp
qed

text \<open>
  C4 (as stated, with the skip before the reserved-name check) fails: the source tests the
  key against the marker names first.
\<close>

theorem C4_counterexample:
  "rewriteMdComment decodeAscii encodeAscii (Str ''abc'') (DObject [(''start'', VNull)])
     defaultOptions = Inl (ReservedKey ''start'')"
  by code_simp

text \<open>
  C4, amended: an entry with a nullish value is skipped entirely when its key is neither
  marker name: the call returns what it returns without the entry. When the key is a marker
  name and the loop reaches the entry, the reserved-name error is raised, nullish value or
  not.
\<close>

theorem C4_nullish_entries:
  assumes "isNullish v"
  shows "(key \<noteq> startMarker opts \<and> key \<noteq> endMarker opts \<longrightarrow>
            rewriteMdComment dec enc input (DObject (pre @ (key, v) # post)) opts =
            rewriteMdComment dec enc input (DObject (pre @ post)) opts) \<and>
         ((key = startMarker opts \<or> key = endMarker opts) \<and> rewriteLoop opts pre c = Inr c' \<longrightarrow>
            rewriteLoop opts (pre @ (key, v) # post) c = Inl (ReservedKey key))"
  using assms
  by (auto simp: rewriteMdComment_def rewriteLoop_append Let_def split: sum.splits jsdoc.splits)

theorem C4_witness:
  "rewriteMdComment decodeAscii encodeAscii
     (Str ''<!-- version:start -->0<!-- version:end -->'')
     (DObject [(''version'', VNull)]) defaultOptions =
       Inr (Str ''<!-- version:start -->0<!-- version:end -->'') \<and>
   rewriteLoop defaultOptions [(''end'', VUndefined)] ''abc'' = Inl (ReservedKey ''end'')"
proof -
  have n: "isNullish VNull" "isNullish VUndefined" by (simp_all add: isNullish_def)
  have "rewriteMdComment decodeAscii encodeAscii
     (Str ''<!-- version:start -->0<!-- version:end -->'')
     (DObject ([] @ (''version'', VNull) # [])) defaultOptions =
     rewriteMdComment decodeAscii encodeAscii
     (Str ''<!-- version:start -->0<!-- version:end -->'') (DObject ([] @ [])) defaultOptions"
    using C4_nullish_entries[OF n(1), where key = "''version''" and opts = defaultOptions
        and dec = decodeAscii and enc = encodeAscii and pre = "[]" and post = "[]"
        and input = "Str ''<!-- version:start -->0<!-- version:end -->''"]
    by (simp add: defaultOptions_def)
  moreover have "rewriteMdComment decodeAscii encodeAscii
     (Str ''<!-- version:start -->0<!-- version:end -->'') (DObject ([] @ [])) defaultOptions =
     Inr (Str ''<!-- version:start -->0<!-- version:end -->'')"
    by code_simp
  moreover have "rewriteLoop defaultOptions ([] @ (''end'', VUndefined) # []) ''abc'' =
      Inl (ReservedKey ''end'')"
    using C4_nullish_entries[OF n(2), where key = "''end''" and opts = defaultOptions
        and pre = "[]" and post = "[]" and c = "''abc''" and c' = "''abc''"]
    by (simp add: defaultOptions_def)
  ultimately show ?thesis by simp
qed

text \<open>
  C5 (as stated, with the error raised also for an empty document or a mapping that is no
  plain object) fails: the pass-through return stands before the test of the marker names.
\<close>

theorem C5_counterexample:
  "rewriteMdComment decodeAscii encodeAscii (Str []) (DObject [])
     (defaultOptions\<lparr>startMarker := []\<rparr>) = Inr (Str []) \<and>
   rewriteMdComment decodeAscii encodeAscii (Str ''abc'') (DValue VNull)
     (defaultOptions\<lparr>endMarker := []\<rparr>) = Inr (Str ''abc'')"
  by (simp add: rewriteMdComment_def returnThis_def defaultOptions_def)

text \<open>
  C5, amended: with an empty start or end marker name, a call on a non-empty document and a
  plain object raises the configuration error, whatever the document and the entries are
  (nothing is scanned); on an empty document or a mapping that is no plain object the
  pass-through return comes first.
\<close>

theorem C5_empty_marker_names:
  assumes "startMarker opts = [] \<or> endMarker opts = []"
  shows "rewriteMdComment dec enc input data opts =
           (if isFalsy (toString dec input) \<or> \<not> isPlainObject data
            then returnThis enc opts (isBuffer input) (toString dec input)
            else Inl ConfigError)"
  using assms by (auto simp: rewriteMdComment_def Let_def)

theorem C5_witness:
  "rewriteMdComment decodeAscii encodeAscii (Str ''abc'') (DObject [])
     (defaultOptions\<lparr>startMarker := []\<rparr>) = Inl ConfigError \<and>
   rewriteMdComment decodeAscii encodeAscii (Str ''abc'') (DObject [(''start'', VStr ''x'')])
     (defaultOptions\<lparr>endMarker := []\<rparr>) = Inl ConfigError"
  using C5_empty_marker_names[of "defaultOptions\<lparr>startMarker := []\<rparr>" decodeAscii
      encodeAscii "Str ''abc''" "DObject []"]
    C5_empty_marker_names[of "defaultOptions\<lparr>endMarker := []\<rparr>" decodeAscii
      encodeAscii "Str ''abc''" "DObject [(''start'', VStr ''x'')]"]
  by simp

text \<open>
  C6 (as stated, with the input returned unchanged) fails for a Buffer: the pass-through
  returns the decoded text.
\<close>

theorem C6_counterexample:
  "rewriteMdComment decodeAscii encodeAscii (Buf (encodeAscii ''## API'')) (DValue VUndefined)
     defaultOptions = Inr (Str ''## API'') \<and>
   rewriteMdComment decodeAscii encodeAscii (Buf (encodeAscii ''## API'')) (DValue VUndefined)
     defaultOptions \<noteq> Inr (Buf (encodeAscii ''## API''))"
  by code_simp

text \<open>
  C6, amended: on a falsy document, or a mapping that is no plain object, the call raises
  nothing and processes no marker; a string, \<open>null\<close> or \<open>undefined\<close> is returned as it
  is; a Buffer is returned as its decoded text, encoded again when \<open>preserveType\<close> is set.
\<close>

theorem C6_pass_through:
  assumes "isFalsy (toString dec input) \<or> \<not> isPlainObject data"
  shows "rewriteMdComment dec enc input data opts =
           Inr (case input of
                  Buf b \<Rightarrow> if preserveType opts then Buf (enc (dec b)) else Str (dec b)
                | _ \<Rightarrow> input)"
  using assms by (cases input) (auto simp: rewriteMdComment_def returnThis_def Let_def)

theorem C6_witness:
  "rewriteMdComment decodeAscii encodeAscii (Str []) (DObject [(''title'', VStr ''Updated'')])
     defaultOptions = Inr (Str []) \<and>
   rewriteMdComment decodeAscii encodeAscii Null (DValue VUndefined) defaultOptions = Inr Null \<and>
   rewriteMdComment decodeAscii encodeAscii (Str ''test'') (DArray []) defaultOptions =
     Inr (Str ''test'')"
  using C6_pass_through[of decodeAscii "Str []" "DObject [(''title'', VStr ''Updated'')]"
      encodeAscii defaultOptions]
    C6_pass_through[of decodeAscii Null "DValue VUndefined" encodeAscii defaultOptions]
    C6_pass_through[of decodeAscii "Str ''test''" "DArray []" encodeAscii defaultOptions]
  by simp

text \<open>
  C7: a call that returns on a Buffer returns a Buffer when \<open>preserveType\<close> is set and a
  string when it is not; a call that returns on a string returns a string.
\<close>

theorem C7_representation:
  assumes "rewriteMdComment dec enc input data opts = Inr r"
  shows "(isBuffer input \<and> preserveType opts \<longrightarrow> isBuffer r) \<and>
         (isBuffer input \<and> \<not> preserveType opts \<longrightarrow> isText r) \<and>
         (isText input \<longrightarrow> isText r)"
  using assms
  by (cases input; cases "preserveType opts")
     (auto simp: rewriteMdComment_def returnThis_def Let_def split: if_splits sum.splits)

theorem C7_witness:
  "rewriteMdComment decodeAscii encodeAscii
     (Buf (encodeAscii ''<!-- build:start -->old<!-- build:end -->''))
     (DObject [(''build'', VStr ''success'')]) (defaultOptions\<lparr>preserveType := True\<rparr>) =
     Inr (Buf (encodeAscii (''<!-- build:start -->'' @ [newline] @ ''success'' @ [newline] @
        ''<!-- build:end -->''))) \<and>
   isBuffer (Buf (encodeAscii (''<!-- build:start -->'' @ [newline] @ ''success'' @ [newline] @
        ''<!-- build:end -->'')))"
proof -
  have h: "rewriteMdComment decodeAscii encodeAscii
     (Buf (encodeAscii ''<!-- build:start -->old<!-- build:end -->''))
     (DObject [(''build'', VStr ''success'')]) (defaultOptions\<lparr>preserveType := True\<rparr>) =
     Inr (Buf (encodeAscii (''<!-- build:start -->'' @ [newline] @ ''success'' @ [newline] @
        ''<!-- build:end -->'')))"
    by code_simp
  from C7_representation[OF h] h show ?thesis by (simp add: defaultOptions_def)
qed

text \<open>
  C10: when the pass-through branch is taken on a Buffer (its text is empty, or the data
  argument is no plain object) and \<open>preserveType\<close> is off, the call returns the decoded
  string, not the Buffer.
\<close>

theorem C10_buffer_pass_through:
  assumes "dec b = [] \<or> \<not> isPlainObject data" and "\<not> preserveType opts"
  shows "rewriteMdComment dec enc (Buf b) data opts = Inr (Str (dec b))"
  using assms by (auto simp: rewriteMdComment_def returnThis_def Let_def)

theorem C10_witness:
  "rewriteMdComment decodeAscii encodeAscii (Buf (encodeAscii ''## API'')) (DValue VUndefined)
     defaultOptions = Inr (Str (decodeAscii (encodeAscii ''## API''))) \<and>
   decodeAscii (encodeAscii ''## API'') = ''## API''"
proof -
  have "decodeAscii (encodeAscii ''## API'') = ''## API''" by code_simp
  then show ?thesis
    using C10_buffer_pass_through[of decodeAscii "encodeAscii ''## API''" "DValue VUndefined"
      defaultOptions encodeAscii]
    by (simp add: defaultOptions_def)
qed

text \<open>
  C1: the end marker of a block is not always preserved. The callback reads both markers
  back from the block text, each as the first match of its pattern there. For the start
  marker that is the block's own start marker; for the end marker it is the block's own end
  marker only when no end marker begins earlier in the block. When the two marker names are
  the same, the first match of the end pattern is the start marker, and the block's end
  marker, white space included, is overwritten by a copy of the start marker.
\<close>

theorem C1_end_marker_overwritten:
  "rewriteMdComment decodeAscii encodeAscii (Str ''<!--k:m-->a<!-- k:m -->'')
     (DObject [(''k'', VStr ''v'')]) (defaultOptions\<lparr>startMarker := ''m'', endMarker := ''m''\<rparr>) =
     Inr (Str (''<!--k:m-->'' @ [newline] @ ''v'' @ [newline] @ ''<!--k:m-->'')) \<and>
   ''<!--k:m-->'' @ [newline] @ ''v'' @ [newline] @ ''<!--k:m-->'' \<noteq>
   ''<!--k:m-->'' @ [newline] @ ''v'' @ [newline] @ ''<!-- k:m -->''"
  by code_simp

text \<open>
  C3: when the document the earlier entries left has a block for the key of the last
  entry, and the value is a string, the output contains the block's markers around a line
  break, the rendered value and a line break. With \<open>allowRaw\<close> the rendered value is the
  string itself; without it, every character is replaced by its HTML entity where it has
  one, and none of \<open><\<close>, \<open>>\<close>, the double quote and the apostrophe is left.
\<close>

theorem C3_escaping:
  assumes run: "rewriteMdComment dec enc input (DObject (pre @ [(key, VStr u)])) opts = Inr r"
    and inp: "toString dec input = Str c" "c \<noteq> []"
    and pre: "rewriteLoop opts pre c = Inr c1"
    and blk: "startsBlock key (startMarker opts) (endMarker opts) (drop p c1)"
  shows "\<exists>a s e z. isMarker key (startMarker opts) s \<and> isMarker key (endMarker opts) e \<and>
           r = (if preserveType opts \<and> isBuffer input
                then Buf (enc (a @ s @ [newline] @ render opts (VStr u) @ [newline] @ e @ z))
                else Str (a @ s @ [newline] @ render opts (VStr u) @ [newline] @ e @ z)) \<and>
           render opts (VStr u) = (if allowRaw opts then u else concat (map entity u)) \<and>
           (\<not> allowRaw opts \<longrightarrow>
              (\<forall>ch\<in>set (render opts (VStr u)).
                 ch \<noteq> CHR ''<'' \<and> ch \<noteq> CHR ''>'' \<and> ch \<noteq> dquote \<and> ch \<noteq> squote))"
proof -
  from run inp obtain c' where l: "rewriteLoop opts (pre @ [(key, VStr u)]) c = Inr c'"
    and r: "r = (if preserveType opts \<and> isBuffer input then Buf (enc c') else Str c')"
    by (auto simp: rewriteMdComment_def Let_def returnThis_def split: if_splits sum.splits)
  have "rewriteLoop opts (pre @ [(key, VStr u)]) c = rewriteLoop opts [(key, VStr u)] c1"
    unfolding rewriteLoop_append pre by simp
  with l have "rewriteLoop opts [(key, VStr u)] c1 = Inr c'" by simp
  then have k: "rewriteKey opts key (VStr u) c1 = Inr c'"
    by (cases "rewriteKey opts key (VStr u) c1") (simp_all add: isNullish_def split: if_splits)
  from blocksReplaced_contains[OF rewriteKey_blocksReplaced[OF k] blk]
  obtain a s e z where m: "isMarker key (startMarker opts) s" "isMarker key (endMarker opts) e"
    and c': "c' = a @ s @ [newline] @ render opts (VStr u) @ [newline] @ e @ z" by blast
  have rd: "render opts (VStr u) = (if allowRaw opts then u else concat (map entity u))"
    by (simp add: render_def escapeHtml_entities)
  have nr: "\<not> allowRaw opts \<longrightarrow>
      (\<forall>ch\<in>set (render opts (VStr u)).
         ch \<noteq> CHR ''<'' \<and> ch \<noteq> CHR ''>'' \<and> ch \<noteq> dquote \<and> ch \<noteq> squote)"
  proof (intro impI ballI)
    fix ch assume "\<not> allowRaw opts" and "ch \<in> set (render opts (VStr u))"
    then have "ch \<in> set (escapeHtml u)" by (simp add: render_def)
    then show "ch \<noteq> CHR ''<'' \<and> ch \<noteq> CHR ''>'' \<and> ch \<noteq> dquote \<and> ch \<noteq> squote"
      by (rule escapeHtml_no_raw)
  qed
  show ?thesis
    by (intro exI[of _ a] exI[of _ s] exI[of _ e] exI[of _ z] conjI m rd nr)
       (simp add: r c')
qed

theorem C3_witness:
  "\<exists>a s e z. isMarker ''content'' (startMarker defaultOptions) s \<and>
      isMarker ''content'' (endMarker defaultOptions) e \<and>
      Str (''<!-- content:start -->'' @ [newline] @ ''&lt;b&gt;&amp;&quot;&#039;'' @ [newline] @
           ''<!-- content:end -->'') =
        Str (a @ s @ [newline] @ render defaultOptions (VStr (''<b>&'' @ [dquote, squote])) @
             [newline] @ e @ z) \<and>
      render defaultOptions (VStr (''<b>&'' @ [dquote, squote])) = ''&lt;b&gt;&amp;&quot;&#039;''"
proof -
  let ?doc = "''<!-- content:start -->old<!-- content:end -->''"
  let ?u = "''<b>&'' @ [dquote, squote]"
  have run: "rewriteMdComment decodeAscii encodeAscii (Str ?doc)
      (DObject ([] @ [(''content'', VStr ?u)])) defaultOptions =
      Inr (Str (''<!-- content:start -->'' @ [newline] @ ''&lt;b&gt;&amp;&quot;&#039;'' @
        [newline] @ ''<!-- content:end -->''))"
    by code_simp
  have inp: "toString decodeAscii (Str ?doc) = Str ?doc" "?doc \<noteq> []" by simp_all
  have pre: "rewriteLoop defaultOptions [] ?doc = Inr ?doc" by simp
  have "isMarker ''content'' ''start'' ''<!-- content:start -->''"
    unfolding isMarker_def isMarkerText_def
    by (intro exI[of _ "'' ''"]) (simp add: isSpace_def)
  moreover have "isMarker ''content'' ''end'' ''<!-- content:end -->''"
    unfolding isMarker_def isMarkerText_def
    by (intro exI[of _ "'' ''"]) (simp add: isSpace_def)
  ultimately have blk: "startsBlock ''content'' (startMarker defaultOptions)
      (endMarker defaultOptions) (drop 0 ?doc)"
    unfolding startsBlock_def
    by (intro exI[of _ "''<!-- content:start -->''"] exI[of _ "''old''"]
        exI[of _ "''<!-- content:end -->''"] exI[of _ "[]"]) (simp add: defaultOptions_def)
  have rd: "concat (map entity ?u) = ''&lt;b&gt;&amp;&quot;&#039;''" by simp
  have na: "\<not> allowRaw defaultOptions" by (simp add: defaultOptions_def)
  show ?thesis
    using C3_escaping[OF run inp pre blk]
    apply (elim exE conjE)
    subgoal premises f for a s e z
    proof -
      have g3: "Str (''<!-- content:start -->'' @ [newline] @ ''&lt;b&gt;&amp;&quot;&#039;'' @
          [newline] @ ''<!-- content:end -->'') =
        Str (a @ s @ [newline] @ render defaultOptions (VStr ?u) @ [newline] @ e @ z)"
        using f(3) by (simp del: append.simps append_assoc)
      have g4: "render defaultOptions (VStr ?u) = ''&lt;b&gt;&amp;&quot;&#039;''"
        using f(4) na rd by (simp del: append.simps)
      show ?thesis
        by (intro exI[of _ a] exI[of _ s] exI[of _ e] exI[of _ z] conjI f(1) f(2) g3 g4)
    qed
    done
qed

text \<open>
  C8 (as stated, for all documents and mappings without key collisions) fails: when an end
  marker of the key stands before the first block and a start marker inside a block, the
  counts agree in the document, the rewrite removes the inner start marker, and the second
  call raises the unmatched-markers error on the output of the first.
\<close>

theorem C8_counterexample:
  "rewriteMdComment decodeAscii encodeAscii
     (Str ''<!--k:end--><!--k:start-->x<!--k:start-->y<!--k:end-->'')
     (DObject [(''k'', VStr ''v'')]) defaultOptions =
     Inr (Str (''<!--k:end--><!--k:start-->'' @ [newline] @ ''v'' @ [newline] @ ''<!--k:end-->'')) \<and>
   rewriteMdComment decodeAscii encodeAscii
     (Str (''<!--k:end--><!--k:start-->'' @ [newline] @ ''v'' @ [newline] @ ''<!--k:end-->''))
     (DObject [(''k'', VStr ''v'')]) defaultOptions = Inl (UnmatchedMarkers ''k'' 1 2)"
  by code_simp

text \<open>
  C8, amended: a second call with the same mapping and options on the result of a call
  that returned returns that result again, unless the result holds different numbers of
  start and end markers for a key with a value: then the second call raises the
  unmatched-markers error for the first such key. This holds when (1) no key with a value,
  followed by a colon and a marker name, contains \<open><!\<close>, (2) the keys with a value do not
  collide: no marker of one key begins with a marker of another key, and the two marker
  names are the same or share no marker, (3) the mapping holds each key with a value once,
  and (4) under \<open>allowRaw\<close> no inserted value contains a marker of a key with a value.
  (A Buffer returned under \<open>preserveType\<close> is decoded by the second call, so the codec has
  to decode what it encoded.)
\<close>

theorem C8_idempotent:
  assumes lt: "\<forall>k\<in>set (liveKeys data). \<forall>L\<in>set (labels opts k). noOpen L"
    and cf: "collisionFree opts (liveKeys data)"
    and d: "distinct (liveKeys data)"
    and vals: "allowRaw opts \<longrightarrow>
      (\<forall>(k, v)\<in>set (entries data). \<not> isNullish v \<longrightarrow> markerFree opts (liveKeys data) (String v))"
    and codec: "isBuffer input \<and> preserveType opts \<longrightarrow> (\<forall>s. dec (enc s) = s)"
    and once: "rewriteMdComment dec enc input data opts = Inr once"
  shows "rewriteMdComment dec enc once data opts =
     (case toString dec once of
        Str c \<Rightarrow>
          (case firstUnmatched opts (entries data) c of
             None \<Rightarrow> Inr once
           | Some err \<Rightarrow> Inl err)
      | _ \<Rightarrow> Inr once)"
proof -
  note g = good_entries[OF lt cf vals]
  let ?content = "toString dec input"
  let ?pass = "isFalsy ?content \<or> \<not> isPlainObject data"
  have "\<exists>F. \<not> isBuffer F \<and> returnThis enc opts (isBuffer input) F = Inr once \<and>
      (if ?pass then F = ?content
       else startMarker opts \<noteq> [] \<and> endMarker opts \<noteq> [] \<and>
         (\<exists>c c'. ?content = Str c \<and> rewriteLoop opts (entries data) c = Inr c' \<and> F = Str c'))"
  proof (cases ?pass)
    case True
    with once have "returnThis enc opts (isBuffer input) ?content = Inr once"
      by (simp add: rewriteMdComment_def Let_def)
    with True toString_not_buffer[of dec input] show ?thesis by auto
  next
    case False
    with once show ?thesis
      by (auto simp: rewriteMdComment_def Let_def split: if_splits jsdoc.splits sum.splits)
  qed
  then obtain F where nb: "\<not> isBuffer F"
    and rt: "returnThis enc opts (isBuffer input) F = Inr once"
    and F: "if ?pass then F = ?content
       else startMarker opts \<noteq> [] \<and> endMarker opts \<noteq> [] \<and>
         (\<exists>c c'. ?content = Str c \<and> rewriteLoop opts (entries data) c = Inr c' \<and> F = Str c')"
    by blast
  from returnThis_again[OF nb codec rt] have c2: "toString dec once = F"
    and rt2: "returnThis enc opts (isBuffer once) F = Inr once" by simp_all
  show ?thesis
  proof (cases "isFalsy F \<or> \<not> isPlainObject data")
    case True
    with c2 rt2 have run: "rewriteMdComment dec enc once data opts = Inr once"
      by (simp add: rewriteMdComment_def Let_def)
    have "firstUnmatched opts (entries data) c = None" if "F = Str c" for c
    proof (cases "isPlainObject data")
      case True
      with \<open>isFalsy F \<or> \<not> isPlainObject data\<close> that have "c = []" by simp
      then show ?thesis by (simp add: firstUnmatched_empty)
    next
      case False
      then have "entries data = []" by (cases data) simp_all
      then show ?thesis by simp
    qed
    then show ?thesis unfolding run c2 by (cases F) simp_all
  next
    case False
    then have np: "\<not> ?pass" using F by (auto split: if_splits)
    with F obtain c c' where cfg: "startMarker opts \<noteq> []" "endMarker opts \<noteq> []"
      and l1: "rewriteLoop opts (entries data) c = Inr c'" and Fs: "F = Str c'" by auto
    have run2: "rewriteMdComment dec enc once data opts =
        (case rewriteLoop opts (entries data) c' of
           Inl e \<Rightarrow> Inl e
         | Inr c'' \<Rightarrow> returnThis enc opts (isBuffer once) (Str c''))"
      using c2 False cfg Fs by (simp add: rewriteMdComment_def Let_def)
    show ?thesis
      unfolding run2 c2 Fs rewriteLoop_twice[OF g d[unfolded liveKeys_def] l1]
      using rt2 Fs by (simp split: option.splits)
  qed
qed

theorem C8_witness:
  "rewriteMdComment decodeAscii encodeAscii
     (Str ''# T <!-- my key:start -->old<!-- my key:end --> and <!--b:start--><!--b:end--> <!-- n:start -->keep<!-- n:end -->'')
     (DObject [(''my key'', VStr ''<details>Hidden</details>''), (''n'', VNull), (''b'', VStr ''B'')])
     (defaultOptions\<lparr>allowRaw := True\<rparr>) =
     Inr (Str (''# T <!-- my key:start -->'' @ [newline] @ ''<details>Hidden</details>'' @ [newline] @ ''<!-- my key:end --> and <!--b:start-->'' @ [newline] @ ''B'' @ [newline] @ ''<!--b:end--> <!-- n:start -->keep<!-- n:end -->'')) \<and>
   rewriteMdComment decodeAscii encodeAscii
     (Str (''# T <!-- my key:start -->'' @ [newline] @ ''<details>Hidden</details>'' @ [newline] @ ''<!-- my key:end --> and <!--b:start-->'' @ [newline] @ ''B'' @ [newline] @ ''<!--b:end--> <!-- n:start -->keep<!-- n:end -->''))
     (DObject [(''my key'', VStr ''<details>Hidden</details>''), (''n'', VNull), (''b'', VStr ''B'')])
     (defaultOptions\<lparr>allowRaw := True\<rparr>) =
     Inr (Str (''# T <!-- my key:start -->'' @ [newline] @ ''<details>Hidden</details>'' @ [newline] @ ''<!-- my key:end --> and <!--b:start-->'' @ [newline] @ ''B'' @ [newline] @ ''<!--b:end--> <!-- n:start -->keep<!-- n:end -->'')) \<and>
   rewriteMdComment decodeAscii encodeAscii (Str ''<!--k:m-->a<!-- k:m --> <!--k:m -->b<!--k:m-->'')
     (DObject [(''k'', VStr ''v'')])
     \<lparr>preserveType = False, startMarker = ''m'', endMarker = ''m'', allowRaw = False\<rparr> =
     Inr (Str (''<!--k:m-->'' @ [newline] @ ''v'' @ [newline] @ ''<!--k:m--> <!--k:m -->'' @ [newline] @ ''v'' @ [newline] @ ''<!--k:m -->'')) \<and>
   rewriteMdComment decodeAscii encodeAscii (Str (''<!--k:m-->'' @ [newline] @ ''v'' @ [newline] @ ''<!--k:m--> <!--k:m -->'' @ [newline] @ ''v'' @ [newline] @ ''<!--k:m -->''))
     (DObject [(''k'', VStr ''v'')])
     \<lparr>preserveType = False, startMarker = ''m'', endMarker = ''m'', allowRaw = False\<rparr> =
     Inr (Str (''<!--k:m-->'' @ [newline] @ ''v'' @ [newline] @ ''<!--k:m--> <!--k:m -->'' @ [newline] @ ''v'' @ [newline] @ ''<!--k:m -->'')) \<and>
   rewriteMdComment decodeAscii encodeAscii (Buf (encodeAscii ''<!--k:start-->old<!--k:end-->''))
     (DObject [(''k'', VStr ''new'')]) (defaultOptions\<lparr>preserveType := True\<rparr>) =
     Inr (Buf (encodeAscii (''<!--k:start-->'' @ [newline] @ ''new'' @ [newline] @ ''<!--k:end-->''))) \<and>
   rewriteMdComment decodeAscii encodeAscii (Buf (encodeAscii (''<!--k:start-->'' @ [newline] @ ''new'' @ [newline] @ ''<!--k:end-->'')))
     (DObject [(''k'', VStr ''new'')]) (defaultOptions\<lparr>preserveType := True\<rparr>) =
     Inr (Buf (encodeAscii (''<!--k:start-->'' @ [newline] @ ''new'' @ [newline] @ ''<!--k:end-->'')))"
proof -
  let ?o1 = "defaultOptions\<lparr>allowRaw := True\<rparr>"
  let ?d1 = "DObject [(''my key'', VStr ''<details>Hidden</details>''), (''n'', VNull), (''b'', VStr ''B'')]"
  let ?i1 = "Str ''# T <!-- my key:start -->old<!-- my key:end --> and <!--b:start--><!--b:end--> <!-- n:start -->keep<!-- n:end -->''"
  let ?r1 = "Str (''# T <!-- my key:start -->'' @ [newline] @ ''<details>Hidden</details>'' @ [newline] @ ''<!-- my key:end --> and <!--b:start-->'' @ [newline] @ ''B'' @ [newline] @ ''<!--b:end--> <!-- n:start -->keep<!-- n:end -->'')"
  have lt1: "\<forall>k\<in>set (liveKeys ?d1). \<forall>L\<in>set (labels ?o1 k). noOpen L" by code_simp
  have gt1: "\<forall>k\<in>set (liveKeys ?d1). \<forall>L\<in>set (labels ?o1 k). CHR ''>'' \<notin> set L"
    by code_simp
  have st1: "\<forall>k\<in>set (liveKeys ?d1). \<forall>k'\<in>set (liveKeys ?d1).
      \<forall>L\<in>set (labels ?o1 k). \<forall>L'\<in>set (labels ?o1 k').
       strip L = strip L' \<longrightarrow> k = k' \<and> L = L'" by code_simp
  note cf1 = collisionFree_strip[OF gt1 st1]
  have d1: "distinct (liveKeys ?d1)" by code_simp
  have v1: "allowRaw ?o1 \<longrightarrow> (\<forall>(k, v)\<in>set (entries ?d1). \<not> isNullish v \<longrightarrow>
      markerFree ?o1 (liveKeys ?d1) (String v))" by code_simp
  have c1: "isBuffer ?i1 \<and> preserveType ?o1 \<longrightarrow> (\<forall>s. decodeAscii (encodeAscii s) = s)"
    by simp
  have once1: "rewriteMdComment decodeAscii encodeAscii ?i1 ?d1 ?o1 = Inr ?r1" by code_simp
  have ok1: "(case toString decodeAscii ?r1 of
        Str c \<Rightarrow> firstUnmatched ?o1 (entries ?d1) c
      | _ \<Rightarrow> None) = None" by code_simp
  from C8_idempotent[OF lt1 cf1 d1 v1 c1 once1] ok1
  have twice1: "rewriteMdComment decodeAscii encodeAscii ?r1 ?d1 ?o1 = Inr ?r1" by simp
  let ?o2 = "\<lparr>preserveType = False, startMarker = ''m'', endMarker = ''m'', allowRaw = False\<rparr>"
  let ?d2 = "DObject [(''k'', VStr ''v'')]"
  let ?i2 = "Str ''<!--k:m-->a<!-- k:m --> <!--k:m -->b<!--k:m-->''"
  let ?r2 = "Str (''<!--k:m-->'' @ [newline] @ ''v'' @ [newline] @ ''<!--k:m--> <!--k:m -->'' @ [newline] @ ''v'' @ [newline] @ ''<!--k:m -->'')"
  have lt2: "\<forall>k\<in>set (liveKeys ?d2). \<forall>L\<in>set (labels ?o2 k). noOpen L" by code_simp
  have gt2: "\<forall>k\<in>set (liveKeys ?d2). \<forall>L\<in>set (labels ?o2 k). CHR ''>'' \<notin> set L"
    by code_simp
  have st2: "\<forall>k\<in>set (liveKeys ?d2). \<forall>k'\<in>set (liveKeys ?d2).
      \<forall>L\<in>set (labels ?o2 k). \<forall>L'\<in>set (labels ?o2 k').
       strip L = strip L' \<longrightarrow> k = k' \<and> L = L'" by code_simp
  note cf2 = collisionFree_strip[OF gt2 st2]
  have d2: "distinct (liveKeys ?d2)" by code_simp
  have v2: "allowRaw ?o2 \<longrightarrow> (\<forall>(k, v)\<in>set (entries ?d2). \<not> isNullish v \<longrightarrow>
      markerFree ?o2 (liveKeys ?d2) (String v))" by simp
  have c2: "isBuffer ?i2 \<and> preserveType ?o2 \<longrightarrow> (\<forall>s. decodeAscii (encodeAscii s) = s)"
    by simp
  have once2: "rewriteMdComment decodeAscii encodeAscii ?i2 ?d2 ?o2 = Inr ?r2" by code_simp
  have ok2: "(case toString decodeAscii ?r2 of
        Str c \<Rightarrow> firstUnmatched ?o2 (entries ?d2) c
      | _ \<Rightarrow> None) = None" by code_simp
  from C8_idempotent[OF lt2 cf2 d2 v2 c2 once2] ok2
  have twice2: "rewriteMdComment decodeAscii encodeAscii ?r2 ?d2 ?o2 = Inr ?r2" by simp
  let ?o3 = "defaultOptions\<lparr>preserveType := True\<rparr>"
  let ?d3 = "DObject [(''k'', VStr ''new'')]"
  let ?i3 = "Buf (encodeAscii ''<!--k:start-->old<!--k:end-->'')"
  let ?r3 = "Buf (encodeAscii (''<!--k:start-->'' @ [newline] @ ''new'' @ [newline] @ ''<!--k:end-->''))"
  have lt3: "\<forall>k\<in>set (liveKeys ?d3). \<forall>L\<in>set (labels ?o3 k). noOpen L" by code_simp
  have gt3: "\<forall>k\<in>set (liveKeys ?d3). \<forall>L\<in>set (labels ?o3 k). CHR ''>'' \<notin> set L"
    by code_simp
  have st3: "\<forall>k\<in>set (liveKeys ?d3). \<forall>k'\<in>set (liveKeys ?d3).
      \<forall>L\<in>set (labels ?o3 k). \<forall>L'\<in>set (labels ?o3 k').
       strip L = strip L' \<longrightarrow> k = k' \<and> L = L'" by code_simp
  note cf3 = collisionFree_strip[OF gt3 st3]
  have d3: "distinct (liveKeys ?d3)" by code_simp
  have v3: "allowRaw ?o3 \<longrightarrow> (\<forall>(k, v)\<in>set (entries ?d3). \<not> isNullish v \<longrightarrow>
      markerFree ?o3 (liveKeys ?d3) (String v))" by (simp add: defaultOptions_def)
  have c3: "isBuffer ?i3 \<and> preserveType ?o3 \<longrightarrow> (\<forall>s. decodeAscii (encodeAscii s) = s)"
    by (simp add: decodeAscii_encodeAscii)
  have once3: "rewriteMdComment decodeAscii encodeAscii ?i3 ?d3 ?o3 = Inr ?r3" by code_simp
  have ok3: "(case toString decodeAscii ?r3 of
        Str c \<Rightarrow> firstUnmatched ?o3 (entries ?d3) c
      | _ \<Rightarrow> None) = None" by code_simp
  from C8_idempotent[OF lt3 cf3 d3 v3 c3 once3] ok3
  have twice3: "rewriteMdComment decodeAscii encodeAscii ?r3 ?d3 ?o3 = Inr ?r3"
    by (simp split: option.splits)
  from once1 twice1 once2 twice2 once3 twice3 show ?thesis by (intro conjI)
qed

end
